theory Spec2Isabelle
  imports Main "HOL-Library.Word"
begin

section \<open>Data model of \<open>cmd/audio-probe-ffmpeg/main.go\<close>\<close>

text \<open>
  Go's \<open>int64\<close> and \<open>int32\<close> are machine words: \<open>+\<close> wraps, \<open>sint\<close> reads the signed
  value. Go's \<open>int\<close> is only stored, compared or used to count entries of a slice
  (a count never exceeds the slice's length, which is an \<open>int\<close>), so it is modelled by
  \<open>int\<close> and \<open>nat\<close>. A \<open>float64\<close> is a value of a type \<open>'d\<close> with \<open>0\<close> and \<open>+\<close>; nothing
  else is assumed of it, so a sum of durations is the left-to-right sum the loop computes.
\<close>

type_synonym int64 = "64 word"
type_synonym int32 = "32 word"

text \<open>\<open>FFProbeStream\<close>, \<open>FFProbeFormat\<close> and \<open>FFProbeOutput\<close>: the decoded ffprobe answer.
  \<open>Tags\<close> is a Go map; it is listed in the order the \<open>range\<close> loop visits it.\<close>

record FFProbeStream =
  CodecName :: string
  CodecLongName :: string
  CodecType :: string
  SampleRate :: string
  Channels :: int
  BitRate :: string

record FFProbeFormat =
  Filename :: string
  FormatName :: string
  FormatLongName :: string
  Duration :: string
  Size :: string
  BitRate :: string
  Tags :: "(string \<times> string) list"

record FFProbeOutput =
  Format :: FFProbeFormat
  Streams :: "FFProbeStream list"

record 'd AudioInfo =
  FilePath :: string
  FileSize :: int64
  DurationSeconds :: 'd
  BitRate :: int64
  SampleRate :: int
  Channels :: int
  CodecName :: string
  CodecLongName :: string
  FormatName :: string
  FormatLongName :: string
  HasVideo :: bool
  Metadata :: "string \<rightharpoonup> string"
  ProcessingTimeMs :: int64

text \<open>The four \<open>fmt.Errorf\<close> failures of \<open>analyzeFileWithFFProbe\<close>; the argument is the
  text of the wrapped error (\<open>%v\<close>).\<close>

datatype probe_error =
  FileNotFound string
  | FFProbeExec string
  | JSONParse string
  | NoAudioStream

text \<open>\<open>Result\<close>: a nil \<open>Info\<close> or a nil \<open>Error\<close> is \<open>None\<close>.\<close>

record 'd Result =
  Info :: "'d AudioInfo option"
  Error :: "probe_error option"

text \<open>
  What one call of \<open>analyzeFileWithFFProbe\<close> observes of the outside world: the answer of
  \<open>os.Stat\<close> (an error text or the size), the answer of \<open>cmd.Output\<close> (an error text or
  the bytes ffprobe printed) and the milliseconds \<open>time.Since(startTime)\<close> reports.
\<close>

record observation =
  statResult :: "string + int64"
  probeOutput :: "string + string"
  elapsedMs :: int64

text \<open>
  The functions of Go's standard library whose value the code uses and whose definition
  is not part of the repository. Each is a parameter: \<open>Unmarshal\<close> is \<open>json.Unmarshal\<close>
  into an \<open>FFProbeOutput\<close> (an error text or the decoded value); \<open>ParseFloat\<close>,
  \<open>ParseInt\<close> and \<open>Atoi\<close> give the value \<open>strconv\<close> returns, the code discarding the
  error; \<open>ToLower\<close> is \<open>strings.ToLower\<close>.
\<close>

record 'd golib =
  Unmarshal :: "string \<Rightarrow> string + FFProbeOutput"
  ParseFloat :: "string \<Rightarrow> 'd"
  ParseInt :: "string \<Rightarrow> int64"
  Atoi :: "string \<Rightarrow> int"
  ToLower :: "string \<Rightarrow> string"

section \<open>\<open>filepath.Base\<close>, \<open>filepath.Ext\<close> and \<open>strings.TrimSuffix\<close>\<close>

text \<open>The three path helpers the title default uses, on a Unix path (separator \<open>/\<close>),
  over the bytes of the string as Go's own loops run.\<close>

definition isSep :: "char \<Rightarrow> bool" where
  "isSep ch = (ch = CHR ''/'')"

text \<open>\<open>Ext\<close>: from the end, stop at a separator; the first dot met starts the extension.
  The argument of \<open>extScan\<close> is the path reversed, the accumulator the bytes passed.\<close>

fun extScan :: "string \<Rightarrow> string \<Rightarrow> string" where
  "extScan [] acc = []"
| "extScan (ch # rest) acc =
     (if isSep ch then []
      else if ch = CHR ''.'' then ch # acc
      else extScan rest (ch # acc))"

definition Ext :: "string \<Rightarrow> string" where
  "Ext path = extScan (rev path) []"

text \<open>\<open>Base\<close>: the empty path is \<open>.\<close>; trailing separators are stripped; the last element
  is kept; a path of separators only is \<open>/\<close>.\<close>

definition Base :: "string \<Rightarrow> string" where
  "Base path =
     (if path = [] then ''.''
      else let stripped = dropWhile isSep (rev path);
               element = rev (takeWhile (\<lambda>ch. \<not> isSep ch) stripped)
           in if element = [] then ''/'' else element)"

definition HasSuffix :: "string \<Rightarrow> string \<Rightarrow> bool" where
  "HasSuffix s suffix =
     (length suffix \<le> length s \<and> drop (length s - length suffix) s = suffix)"

definition TrimSuffix :: "string \<Rightarrow> string \<Rightarrow> string" where
  "TrimSuffix s suffix =
     (if HasSuffix s suffix then take (length s - length suffix) s else s)"

section \<open>\<open>analyzeFileWithFFProbe\<close>\<close>

text \<open>
  The stream loop (lines 325 to 331): the first stream of type \<open>audio\<close> is kept (each
  iteration has its own \<open>stream\<close> variable, Go 1.22 and later; the build uses Go 1.24),
  and a stream of type \<open>video\<close> that does not take the first branch sets \<open>hasVideo\<close>.
\<close>

fun scanStreams ::
  "FFProbeStream list \<Rightarrow> FFProbeStream option \<Rightarrow> bool \<Rightarrow> FFProbeStream option \<times> bool" where
  "scanStreams [] audioStream hasVideo = (audioStream, hasVideo)"
| "scanStreams (stream # rest) audioStream hasVideo =
     (if CodecType stream = ''audio'' \<and> audioStream = None
        then scanStreams rest (Some stream) hasVideo
      else if CodecType stream = ''video''
        then scanStreams rest audioStream True
      else scanStreams rest audioStream hasVideo)"

text \<open>The tag loop (lines 349 to 352): every tag is stored under its lowercased key, in
  the order the map is visited.\<close>

fun lowerTags :: "(string \<Rightarrow> string) \<Rightarrow> (string \<times> string) list \<Rightarrow>
    (string \<rightharpoonup> string) \<Rightarrow> (string \<rightharpoonup> string)" where
  "lowerTags lower [] metadata = metadata"
| "lowerTags lower ((k, v) # rest) metadata = lowerTags lower rest (metadata(lower k \<mapsto> v))"

text \<open>The defaults (lines 372 to 381): three tests of the same shape, each storing a
  value under a key the map does not hold. \<open>info.Metadata\<close> and \<open>metadata\<close> are the same
  map, so each test reads what the stores before it wrote.\<close>

definition setDefault ::
  "string \<Rightarrow> string \<Rightarrow> (string \<rightharpoonup> string) \<Rightarrow> (string \<rightharpoonup> string)" where
  "setDefault k v metadata = (if metadata k = None then metadata(k \<mapsto> v) else metadata)"

definition withDefaults :: "string \<Rightarrow> (string \<rightharpoonup> string) \<Rightarrow> (string \<rightharpoonup> string)" where
  "withDefaults filePath metadata =
     setDefault ''album'' ''Unknown Album''
       (setDefault ''artist'' ''Unknown Artist''
         (setDefault ''title'' (TrimSuffix (Base filePath) (Ext (Base filePath))) metadata))"

text \<open>Lines 344 to 346: the stream's bit rate replaces a format bit rate of 0 when it
  is positive (a signed comparison of two \<open>int64\<close>).\<close>

definition chooseBitRate :: "int64 \<Rightarrow> int64 \<Rightarrow> int64" where
  "chooseBitRate bitRate streamBitRate =
     (if bitRate = 0 \<and> 0 < sint streamBitRate then streamBitRate else bitRate)"

definition analyzeFileWithFFProbe ::
  "'d golib \<Rightarrow> observation \<Rightarrow> string \<Rightarrow> probe_error + 'd AudioInfo" where
  "analyzeFileWithFFProbe lib ob filePath =
     (case statResult ob of
        Inl err \<Rightarrow> Inl (FileNotFound err)
      | Inr fileSize \<Rightarrow>
     (case probeOutput ob of
        Inl err \<Rightarrow> Inl (FFProbeExec err)
      | Inr output \<Rightarrow>
     (case Unmarshal lib output of
        Inl err \<Rightarrow> Inl (JSONParse err)
      | Inr probeData \<Rightarrow>
     (case scanStreams (Streams probeData) None False of
        (None, hasVideo) \<Rightarrow> Inl NoAudioStream
      | (Some audioStream, hasVideo) \<Rightarrow>
          Inr \<lparr> FilePath = filePath,
                FileSize = fileSize,
                DurationSeconds = ParseFloat lib (Duration (Format probeData)),
                BitRate = chooseBitRate
                  (ParseInt lib (FFProbeFormat.BitRate (Format probeData)))
                  (ParseInt lib (FFProbeStream.BitRate audioStream)),
                SampleRate = Atoi lib (FFProbeStream.SampleRate audioStream),
                Channels = FFProbeStream.Channels audioStream,
                CodecName = FFProbeStream.CodecName audioStream,
                CodecLongName = FFProbeStream.CodecLongName audioStream,
                FormatName = FFProbeFormat.FormatName (Format probeData),
                FormatLongName = FFProbeFormat.FormatLongName (Format probeData),
                HasVideo = hasVideo,
                Metadata = withDefaults filePath
                  (lowerTags (ToLower lib) (Tags (Format probeData)) Map.empty),
                ProcessingTimeMs = elapsedMs ob \<rparr>))))"

text \<open>Line 263: \<open>Result{Info: info, Error: err}\<close>.\<close>

definition toResult :: "probe_error + 'd AudioInfo \<Rightarrow> 'd Result" where
  "toResult r =
     (case r of
        Inl err \<Rightarrow> \<lparr> Info = None, Error = Some err \<rparr>
      | Inr info \<Rightarrow> \<lparr> Info = Some info, Error = None \<rparr>)"

section \<open>\<open>processFiles\<close>\<close>

text \<open>
  The inputs of one run: the file list and the requested concurrency (the arguments),
  the flag \<open>quiet\<close> (a global), \<open>runtime.NumCPU()\<close>, the library, and what the call of
  \<open>analyzeFileWithFFProbe\<close> made by the goroutine of index \<open>i\<close> observes.
\<close>

record 'd config =
  files :: "string list"
  maxConcurrency :: int
  numCPU :: int
  quiet :: bool
  lib :: "'d golib"
  observe :: "nat \<Rightarrow> observation"

definition cpuLimit :: "'d config \<Rightarrow> int" where
  "cpuLimit c = numCPU c * 12"

text \<open>Lines 211 to 215: the concurrency in force after the adjustment.\<close>

definition effectiveConcurrency :: "'d config \<Rightarrow> int" where
  "effectiveConcurrency c =
     (if maxConcurrency c > cpuLimit c then cpuLimit c else maxConcurrency c)"

text \<open>The lines \<open>log.Printf\<close> writes, by format and arguments (the elapsed time of
  \<open>Completed\<close> left out).\<close>

datatype log_line =
  Warning int int
  | FoundFiles nat
  | Processing nat int
  | Completed
  | Succeeded nat
  | Failed nat

text \<open>What goroutine \<open>i\<close> computes and stores at line 263.\<close>

definition probeResult :: "'d config \<Rightarrow> nat \<Rightarrow> 'd Result" where
  "probeResult c i = toResult (analyzeFileWithFFProbe (lib c) (observe c i) (files c ! i))"

text \<open>
  The goroutines of \<open>processFiles\<close> run interleaved. Each worker goroutine (lines 256 to
  266) is at one of these points: not yet started by the loop; \<open>Blocked\<close> before the send
  \<open>semaphore <- struct{}{}\<close>; \<open>InFlight\<close> holding a permit with the call of
  \<open>analyzeFileWithFFProbe\<close> outstanding; \<open>Stored\<close> after the write of \<open>results[index]\<close>;
  \<open>Counted\<close> after \<open>atomic.AddInt32\<close>; \<open>Released\<close> after the deferred receive
  \<open><-semaphore\<close>; \<open>Exited\<close> after the deferred \<open>wg.Done()\<close>. A step is one channel,
  WaitGroup or atomic operation, or the return of the probe with the write of
  \<open>results[index]\<close>: only worker \<open>index\<close> writes that slot and the slice is read after
  \<open>wg.Wait()\<close>, so the write is taken as one step. The banner \<open>fmt.Printf\<close> and
  \<open>fmt.Println\<close> of lines 217 and 218 and what the progress goroutine prints are left out.
\<close>

datatype gpc = NotStarted | Blocked | InFlight | Stored | Counted | Released | Exited

text \<open>The calling goroutine: in the loop and at \<open>wg.Wait()\<close>; at \<open>progressWg.Wait()\<close>
  after \<open>close(progressDone)\<close>; returned.\<close>

datatype mpc = Forking | Joining | Returned

text \<open>The progress goroutine (lines 233 to 252): absent under \<open>quiet\<close>, polling, or
  stopped after it received from \<open>progressDone\<close>.\<close>

datatype ppc = Absent | Polling | Stopped

text \<open>
  The shared state. \<open>semaphore\<close> is the number of elements buffered in the channel, \<open>wg\<close>
  the counter of the WaitGroup, \<open>spawned\<close> the loop index. Two fields record history and
  are read by no step: \<open>writes\<close> counts the index writes made to each slot of \<open>results\<close>,
  and \<open>shown\<close> lists the values of \<open>processed\<close> the progress goroutine loaded at its ticks.
\<close>

record 'd state =
  results :: "'d Result list"
  writes :: "nat list"
  semaphore :: nat
  processed :: int32
  wg :: int
  spawned :: nat
  gpcs :: "gpc list"
  mainpc :: mpc
  progressDone :: bool
  ticker :: ppc
  shown :: "int32 list"
  logs :: "log_line list"

datatype panic = MakeChanSizeOutOfRange | NilPointerDereference

text \<open>The zero value of \<open>Result\<close>, which \<open>make([]Result, len(files))\<close> fills the slice with.\<close>

definition zeroResult :: "'d Result" where
  "zeroResult = \<lparr> Info = None, Error = None \<rparr>"

text \<open>Lines 210 to 252, before the loop: the adjustment and its warning, the log lines,
  the allocation of \<open>results\<close>, and \<open>make(chan struct{}, maxConcurrency)\<close>, which panics
  on a negative size.\<close>

definition startProcessFiles :: "'d config \<Rightarrow> panic + 'd state" where
  "startProcessFiles c =
     (if effectiveConcurrency c < 0 then Inl MakeChanSizeOutOfRange
      else Inr \<lparr> results = replicate (length (files c)) zeroResult,
                 writes = replicate (length (files c)) 0,
                 semaphore = 0,
                 processed = 0,
                 wg = 0,
                 spawned = 0,
                 gpcs = replicate (length (files c)) NotStarted,
                 mainpc = Forking,
                 progressDone = False,
                 ticker = (if quiet c then Absent else Polling),
                 shown = [],
                 logs = (if maxConcurrency c > cpuLimit c
                         then [Warning (maxConcurrency c) (cpuLimit c)] else [])
                        @ [FoundFiles (length (files c)),
                           Processing (length (files c)) (effectiveConcurrency c)] \<rparr>)"

text \<open>Lines 277 to 284: the two counters of the closing loop.\<close>

fun countResults :: "'d Result list \<Rightarrow> nat \<times> nat \<Rightarrow> nat \<times> nat" where
  "countResults [] counts = counts"
| "countResults (result # rest) (successCount, failCount) =
     (if Error result = None
      then countResults rest (successCount + 1, failCount)
      else countResults rest (successCount, failCount + 1))"

definition closingLogs :: "'d Result list \<Rightarrow> log_line list" where
  "closingLogs rs =
     (case countResults rs (0, 0) of
        (successCount, failCount) \<Rightarrow>
          [Completed, Succeeded successCount]
          @ (if failCount > 0 then [Failed failCount] else []))"

text \<open>
  One step of a worker goroutine. The send blocks while the channel holds
  \<open>maxConcurrency\<close> elements (an unbuffered channel of capacity 0 never takes it, there
  being no receiver); the receive blocks on an empty channel.
\<close>

definition workerStep :: "'d config \<Rightarrow> nat \<Rightarrow> 'd state \<Rightarrow> 'd state option" where
  "workerStep c i s =
     (if length (files c) \<le> i then None
      else case gpcs s ! i of
        NotStarted \<Rightarrow> None
      | Blocked \<Rightarrow>
          if int (semaphore s) < effectiveConcurrency c
          then Some (s\<lparr> semaphore := semaphore s + 1, gpcs := (gpcs s)[i := InFlight] \<rparr>)
          else None
      | InFlight \<Rightarrow>
          Some (s\<lparr> results := (results s)[i := probeResult c i],
                   writes := (writes s)[i := writes s ! i + 1],
                   gpcs := (gpcs s)[i := Stored] \<rparr>)
      | Stored \<Rightarrow>
          Some (s\<lparr> processed := processed s + 1, gpcs := (gpcs s)[i := Counted] \<rparr>)
      | Counted \<Rightarrow>
          if semaphore s = 0 then None
          else Some (s\<lparr> semaphore := semaphore s - 1, gpcs := (gpcs s)[i := Released] \<rparr>)
      | Released \<Rightarrow>
          Some (s\<lparr> wg := wg s - 1, gpcs := (gpcs s)[i := Exited] \<rparr>)
      | Exited \<Rightarrow> None)"

text \<open>
  One step of the calling goroutine: an iteration of the loop at line 254 (\<open>wg.Add(1)\<close>
  and the \<open>go\<close> statement); \<open>wg.Wait()\<close>, which passes when the counter is 0, with
  \<open>close(progressDone)\<close>; \<open>progressWg.Wait()\<close>, which passes when no progress goroutine
  runs, with the closing count and the return.
\<close>

definition mainStep :: "'d config \<Rightarrow> 'd state \<Rightarrow> 'd state option" where
  "mainStep c s =
     (case mainpc s of
        Forking \<Rightarrow>
          if spawned s < length (files c)
          then Some (s\<lparr> wg := wg s + 1,
                        gpcs := (gpcs s)[spawned s := Blocked],
                        spawned := spawned s + 1 \<rparr>)
          else if wg s = 0
          then Some (s\<lparr> mainpc := Joining, progressDone := True \<rparr>)
          else None
      | Joining \<Rightarrow>
          if ticker s = Polling then None
          else Some (s\<lparr> mainpc := Returned, logs := logs s @ closingLogs (results s) \<rparr>)
      | Returned \<Rightarrow> None)"

text \<open>The progress goroutine's \<open>select\<close>: a tick loads \<open>processed\<close> and prints it; a
  receive from the closed \<open>progressDone\<close> ends the goroutine.\<close>

definition tickStep :: "'d state \<Rightarrow> 'd state option" where
  "tickStep s =
     (if ticker s = Polling then Some (s\<lparr> shown := shown s @ [processed s] \<rparr>) else None)"

definition stopStep :: "'d state \<Rightarrow> 'd state option" where
  "stopStep s =
     (if ticker s = Polling \<and> progressDone s then Some (s\<lparr> ticker := Stopped \<rparr>) else None)"

datatype actor = MainThread | Worker nat | ProgressTick | ProgressStop

fun step :: "'d config \<Rightarrow> actor \<Rightarrow> 'd state \<Rightarrow> 'd state option" where
  "step c MainThread s = mainStep c s"
| "step c (Worker i) s = workerStep c i s"
| "step c ProgressTick s = tickStep s"
| "step c ProgressStop s = stopStep s"

text \<open>A schedule names the goroutine that takes each step; a schedule that names a
  blocked goroutine is no execution (\<open>None\<close>).\<close>

fun exec :: "'d config \<Rightarrow> actor list \<Rightarrow> 'd state \<Rightarrow> 'd state option" where
  "exec c [] s = Some s"
| "exec c (a # sched) s = (case step c a s of None \<Rightarrow> None | Some s' \<Rightarrow> exec c sched s')"

text \<open>The permits held (elements a worker has sent and not yet received back) and the
  calls of the adapter in flight.\<close>

definition holdsPermit :: "gpc \<Rightarrow> bool" where
  "holdsPermit p = (p = InFlight \<or> p = Stored \<or> p = Counted)"

definition inFlight :: "'d state \<Rightarrow> nat" where
  "inFlight s = length (filter (\<lambda>p. p = InFlight) (gpcs s))"

text \<open>A schedule that runs the workers one after the other, and the progress
  goroutine's exit when there is one.\<close>

definition workerRound :: "nat \<Rightarrow> actor list" where
  "workerRound i = [MainThread, Worker i, Worker i, Worker i, Worker i, Worker i]"

definition sequentialSchedule :: "'d config \<Rightarrow> actor list" where
  "sequentialSchedule c =
     concat (map workerRound [0 ..< length (files c)])
     @ [MainThread] @ (if quiet c then [] else [ProgressStop]) @ [MainThread]"

text \<open>The outcome of the adapter for item \<open>i\<close>, and the records of the items it
  succeeded on, in input order.\<close>

definition outcome :: "'d config \<Rightarrow> nat \<Rightarrow> probe_error + 'd AudioInfo" where
  "outcome c i = analyzeFileWithFFProbe (lib c) (observe c i) (files c ! i)"

fun rights :: "('e + 'a) list \<Rightarrow> 'a list" where
  "rights [] = []"
| "rights (Inl e # xs) = rights xs"
| "rights (Inr a # xs) = a # rights xs"

fun lefts :: "('e + 'a) list \<Rightarrow> 'e list" where
  "lefts [] = []"
| "lefts (Inl e # xs) = e # lefts xs"
| "lefts (Inr a # xs) = lefts xs"

definition outcomes :: "'d config \<Rightarrow> (probe_error + 'd AudioInfo) list" where
  "outcomes c = map (outcome c) [0 ..< length (files c)]"

section \<open>\<open>outputResults\<close>, \<open>outputJSON\<close> and \<open>outputText\<close>\<close>

text \<open>
  What is rendered. A line of the text report is the \<open>Fprintf\<close> that writes it, with its
  arguments before formatting; \<open>FileEntry\<close> stands for the block of lines 454 to 472
  written for one record. The JSON document is the slice handed to the encoder. Where
  the output goes (\<open>os.Create\<close>, the buffered writer) is left out, and every write to it is
  taken to succeed.
\<close>

datatype 'd text_line =
  Header
  | Counts nat nat
  | TotalDuration 'd
  | TotalSize int64
  | ErrorLine probe_error
  | FileEntry "'d AudioInfo"

datatype 'd rendered =
  JSONDocument "'d AudioInfo list"
  | TextReport "'d text_line list"




text \<open>Lines 430 to 440: the statistics loop, on (totalDuration, totalSize, successCount).\<close>

fun textStats :: "'d::{zero,plus} Result list \<Rightarrow> 'd \<times> int64 \<times> nat \<Rightarrow> 'd \<times> int64 \<times> nat" where
  "textStats [] acc = acc"
| "textStats (result # rest) (totalDuration, totalSize, successCount) =
     (case (Error result, Info result) of
        (None, Some info) \<Rightarrow>
          textStats rest
            (totalDuration + DurationSeconds info, totalSize + FileSize info, successCount + 1)
      | _ \<Rightarrow> textStats rest (totalDuration, totalSize, successCount))"

text \<open>Lines 447 to 473: the loop over the individual results. A result with neither an
  error nor a record makes \<open>info.FilePath\<close> dereference nil.\<close>

fun textEntries :: "'d Result list \<Rightarrow> panic + 'd text_line list" where
  "textEntries [] = Inr []"
| "textEntries (result # rest) =
     (case Error result of
        Some err \<Rightarrow>
          (case textEntries rest of Inl p \<Rightarrow> Inl p | Inr ls \<Rightarrow> Inr (ErrorLine err # ls))
      | None \<Rightarrow>
          (case Info result of
             None \<Rightarrow> Inl NilPointerDereference
           | Some info \<Rightarrow>
               (case textEntries rest of Inl p \<Rightarrow> Inl p | Inr ls \<Rightarrow> Inr (FileEntry info # ls))))"

definition outputText :: "'d::{zero,plus} Result list \<Rightarrow> panic + 'd rendered" where
  "outputText rs =
     (case textStats rs (0, 0, 0) of
        (totalDuration, totalSize, successCount) \<Rightarrow>
          (case textEntries rs of
             Inl p \<Rightarrow> Inl p
           | Inr ls \<Rightarrow>
               Inr (TextReport
                 ([Header, Counts successCount (length rs - successCount),
                   TotalDuration totalDuration, TotalSize totalSize] @ ls))))"


section \<open>The invariant of a run\<close>

text \<open>Points of a worker: past the write of its slot, past the increment of
  \<open>processed\<close>, and between \<open>wg.Add(1)\<close> and \<open>wg.Done()\<close>.\<close>

definition stored :: "gpc \<Rightarrow> bool" where
  "stored p = (p = Stored \<or> p = Counted \<or> p = Released \<or> p = Exited)"

definition counted :: "gpc \<Rightarrow> bool" where
  "counted p = (p = Counted \<or> p = Released \<or> p = Exited)"

definition live :: "gpc \<Rightarrow> bool" where
  "live p = (p \<noteq> NotStarted \<and> p \<noteq> Exited)"

text \<open>Slot \<open>i\<close> holds the zero value and was never written until worker \<open>i\<close> has stored
  its result; from then on it holds that result and was written once.\<close>

definition slotOk :: "'d config \<Rightarrow> 'd state \<Rightarrow> nat \<Rightarrow> bool" where
  "slotOk c s i =
     (if stored (gpcs s ! i)
      then results s ! i = probeResult c i \<and> writes s ! i = 1
      else results s ! i = zeroResult \<and> writes s ! i = 0)"

definition slotsOk :: "'d config \<Rightarrow> 'd state \<Rightarrow> bool" where
  "slotsOk c s =
     (\<forall>i < length (files c).
        slotOk c s i \<and> ((gpcs s ! i = NotStarted) = (spawned s \<le> i)))"

definition lensOk :: "'d config \<Rightarrow> 'd state \<Rightarrow> bool" where
  "lensOk c s =
     (length (gpcs s) = length (files c)
      \<and> length (results s) = length (files c)
      \<and> length (writes s) = length (files c)
      \<and> spawned s \<le> length (files c))"

text \<open>The channel holds one element per worker between its send and its receive, never
  more than its capacity; \<open>processed\<close> and the WaitGroup count the workers they should.\<close>

definition countsOk :: "'d config \<Rightarrow> 'd state \<Rightarrow> bool" where
  "countsOk c s =
     (semaphore s = length (filter holdsPermit (gpcs s))
      \<and> (semaphore s = 0 \<or> int (semaphore s) \<le> effectiveConcurrency c)
      \<and> processed s = of_nat (length (filter counted (gpcs s)))
      \<and> wg s = int (length (filter live (gpcs s))))"

definition controlOk :: "'d config \<Rightarrow> 'd state \<Rightarrow> bool" where
  "controlOk c s =
     ((mainpc s = Forking \<or> (spawned s = length (files c) \<and> wg s = 0))
      \<and> progressDone s = (mainpc s \<noteq> Forking)
      \<and> (ticker s = Absent) = quiet c
      \<and> (ticker s = Stopped \<longrightarrow> progressDone s)
      \<and> (mainpc s = Returned \<longrightarrow> ticker s \<noteq> Polling))"

definition invariant :: "'d config \<Rightarrow> 'd state \<Rightarrow> bool" where
  "invariant c s = (lensOk c s \<and> slotsOk c s \<and> countsOk c s \<and> controlOk c s)"

text \<open>The values the progress goroutine loaded are counts of workers past the
  increment, in the order they were taken.\<close>

definition shownOk :: "'d state \<Rightarrow> bool" where
  "shownOk s =
     (\<exists>ks. shown s = map of_nat ks \<and> sorted ks
        \<and> (\<forall>k \<in> set ks. k \<le> length (filter counted (gpcs s))))"

text \<open>The state in which the workers below \<open>k\<close> have exited and the others have not
  been started.\<close>

definition idle :: "'d config \<Rightarrow> nat \<Rightarrow> 'd state \<Rightarrow> bool" where
  "idle c k s =
     (invariant c s \<and> spawned s = k \<and> mainpc s = Forking \<and> wg s = 0 \<and> semaphore s = 0
      \<and> processed s = of_nat k)"

text \<open>\<open>processFiles\<close> under a schedule: the state the schedule ends in, \<open>None\<close> when
  \<open>make\<close> panics or the schedule names a blocked goroutine. The function has returned
  when \<open>mainpc\<close> is \<open>Returned\<close>, and \<open>results\<close> is then its value.\<close>

definition processFiles :: "'d config \<Rightarrow> actor list \<Rightarrow> 'd state option" where
  "processFiles c sched =
     (case startProcessFiles c of Inl p \<Rightarrow> None | Inr s0 \<Rightarrow> exec c sched s0)"

text \<open>After the return, the log ends with the lines of the closing count.\<close>

definition logsOk :: "'d state \<Rightarrow> bool" where
  "logsOk s = (mainpc s = Returned \<longrightarrow> (\<exists>pre. logs s = pre @ closingLogs (results s)))"

text \<open>
  Two states agree on everything a step reads to decide whether it is enabled and where
  it goes next (all fields but \<open>results\<close> and \<open>logs\<close>); two configurations agree on what
  the steps read of them besides the adapter's outcomes.
\<close>

definition sameControl :: "'d state \<Rightarrow> 'd state \<Rightarrow> bool" where
  "sameControl s t =
     (writes s = writes t \<and> semaphore s = semaphore t \<and> processed s = processed t
      \<and> wg s = wg t \<and> spawned s = spawned t \<and> gpcs s = gpcs t \<and> mainpc s = mainpc t
      \<and> progressDone s = progressDone t \<and> ticker s = ticker t \<and> shown s = shown t)"

definition sameShape :: "'d config \<Rightarrow> 'd config \<Rightarrow> bool" where
  "sameShape c c' =
     (length (files c) = length (files c')
      \<and> effectiveConcurrency c = effectiveConcurrency c'
      \<and> quiet c = quiet c')"

section \<open>A concrete run\<close>

text \<open>
  A library, three files and a schedule on which the theorems below are evaluated.
  \<open>asciiToLower\<close> is \<open>strings.ToLower\<close> on ASCII bytes; durations are whole seconds. The
  first and the third file decode to the same ffprobe answer (a cover picture and an MP3
  stream, a format bit rate of 0), the second file is missing. With two permits, the
  third worker finishes first and the first worker last.
\<close>

definition asciiLower :: "char \<Rightarrow> char" where
  "asciiLower ch =
     (let n = (of_char ch :: nat) in if 65 \<le> n \<and> n \<le> 90 then char_of (n + 32) else ch)"

definition asciiToLower :: "string \<Rightarrow> string" where
  "asciiToLower t = map asciiLower t"

definition demoAudio :: FFProbeStream where
  "demoAudio = \<lparr> FFProbeStream.CodecName = ''mp3'',
                  FFProbeStream.CodecLongName = ''MP3 (MPEG audio layer 3)'',
                  CodecType = ''audio'',
                  FFProbeStream.SampleRate = ''44100'',
                  FFProbeStream.Channels = 2,
                  FFProbeStream.BitRate = ''128000'' \<rparr>"

definition demoCover :: FFProbeStream where
  "demoCover = \<lparr> FFProbeStream.CodecName = ''mjpeg'',
                  FFProbeStream.CodecLongName = ''Motion JPEG'',
                  CodecType = ''video'',
                  FFProbeStream.SampleRate = [],
                  FFProbeStream.Channels = 0,
                  FFProbeStream.BitRate = [] \<rparr>"

definition demoOutput :: FFProbeOutput where
  "demoOutput =
     \<lparr> Format = \<lparr> Filename = ''song.mp3'',
                    FFProbeFormat.FormatName = ''mp3'',
                    FFProbeFormat.FormatLongName = ''MP2/3 (MPEG audio layer 2/3)'',
                    Duration = ''180'',
                    Size = ''2880000'',
                    FFProbeFormat.BitRate = ''0'',
                    Tags = [(''ARTIST'', ''Band''), (''Genre'', ''Rock'')] \<rparr>,
       Streams = [demoCover, demoAudio] \<rparr>"

definition demoLib :: "int golib" where
  "demoLib =
     \<lparr> Unmarshal = (\<lambda>out. if out = ''{}'' then Inr demoOutput
                             else Inl ''unexpected end of JSON input''),
       ParseFloat = (\<lambda>t. if t = ''180'' then 180 else 0),
       ParseInt = (\<lambda>t. if t = ''128000'' then 128000 else 0),
       Atoi = (\<lambda>t. if t = ''44100'' then 44100 else 0),
       ToLower = asciiToLower \<rparr>"

definition demoObserve :: "nat \<Rightarrow> observation" where
  "demoObserve i =
     (if i = 1
      then \<lparr> statResult = Inl ''no such file or directory'',
             probeOutput = Inl ''exit status 1'',
             elapsedMs = 0 \<rparr>
      else \<lparr> statResult = Inr 2880000, probeOutput = Inr ''{}'', elapsedMs = 12 \<rparr>)"

definition demoConfig :: "int config" where
  "demoConfig =
     \<lparr> files = [''/music/a.mp3'', ''/music/b.flac'', ''/music/c.wav''],
       maxConcurrency = 2,
       numCPU = 4,
       quiet = False,
       lib = demoLib,
       observe = demoObserve \<rparr>"

definition demoSchedule :: "actor list" where
  "demoSchedule =
     [MainThread, MainThread, Worker 1, MainThread, Worker 2, ProgressTick,
      Worker 2, Worker 2, ProgressTick, Worker 2, Worker 0, Worker 1, Worker 0,
      Worker 0, Worker 1, ProgressTick, Worker 2, Worker 1, Worker 1, Worker 0,
      Worker 0, MainThread, ProgressTick, ProgressStop, MainThread]"

text \<open>The record the probe of the first and third file returns, given the path and the
  title.\<close>

definition demoInfo :: "string \<Rightarrow> string \<Rightarrow> int AudioInfo" where
  "demoInfo path title =
     \<lparr> FilePath = path,
       FileSize = 2880000,
       DurationSeconds = 180,
       BitRate = 128000,
       SampleRate = 44100,
       Channels = 2,
       CodecName = ''mp3'',
       CodecLongName = ''MP3 (MPEG audio layer 3)'',
       FormatName = ''mp3'',
       FormatLongName = ''MP2/3 (MPEG audio layer 2/3)'',
       HasVideo = True,
       Metadata = [''artist'' \<mapsto> ''Band'', ''genre'' \<mapsto> ''Rock'', ''title'' \<mapsto> title,
                   ''album'' \<mapsto> ''Unknown Album''],
       ProcessingTimeMs = 12 \<rparr>"

text \<open>The state the concrete run ends in, the state two workers hold the two permits
  in, and the same files with every probe failing.\<close>

definition demoFinal :: "int state" where
  "demoFinal = the (processFiles demoConfig demoSchedule)"

definition demoBusy :: "int state" where
  "demoBusy = the (processFiles demoConfig (take 5 demoSchedule))"

definition demoStart :: "int state" where
  "demoStart = projr (startProcessFiles demoConfig)"

text \<open>The state after the ninth step of the schedule; a run that asks for 100
  concurrent probes on 4 CPUs; and a run over \<open>2 ^ 31\<close> files.\<close>

definition demoMid :: "int state" where
  "demoMid = the (processFiles demoConfig (take 9 demoSchedule))"

definition demoGreedy :: "int config" where
  "demoGreedy = demoConfig \<lparr> maxConcurrency := 100 \<rparr>"

definition demoHuge :: "int config" where
  "demoHuge = demoConfig \<lparr> files := replicate 2147483648 ''/music/a.mp3'' \<rparr>"

text \<open>Two files of \<open>2 ^ 62\<close> bytes each, both probed with success.\<close>

definition demoLarge :: "int config" where
  "demoLarge =
     demoConfig \<lparr> files := [''/music/a.mp3'', ''/music/c.wav''],
                  observe := (\<lambda>i. \<lparr> statResult = Inr 4611686018427387904,
                                    probeOutput = Inr ''{}'', elapsedMs = 12 \<rparr>) \<rparr>"

definition demoAllFail :: "int config" where
  "demoAllFail = demoConfig \<lparr> observe := (\<lambda>i. demoObserve 1) \<rparr>"

section \<open>Properties of \<open>analyzeFileWithFFProbe\<close>\<close>

lemma scanStreams_fst:
  "fst (scanStreams ss a h) =
     (case a of Some x \<Rightarrow> Some x | None \<Rightarrow> find (\<lambda>st. CodecType st = ''audio'') ss)"
  by (induction ss a h rule: scanStreams.induct) (auto split: option.splits)

lemma analyze_Inr:
  assumes "analyzeFileWithFFProbe lb ob filePath = Inr info"
  obtains fileSize out probeData audioStream hasVideo where
    "statResult ob = Inr fileSize" "probeOutput ob = Inr out"
    "Unmarshal lb out = Inr probeData"
    "scanStreams (Streams probeData) None False = (Some audioStream, hasVideo)"
    "info = \<lparr> FilePath = filePath,
                FileSize = fileSize,
                DurationSeconds = ParseFloat lb (Duration (Format probeData)),
                BitRate = chooseBitRate
                  (ParseInt lb (FFProbeFormat.BitRate (Format probeData)))
                  (ParseInt lb (FFProbeStream.BitRate audioStream)),
                SampleRate = Atoi lb (FFProbeStream.SampleRate audioStream),
                Channels = FFProbeStream.Channels audioStream,
                CodecName = FFProbeStream.CodecName audioStream,
                CodecLongName = FFProbeStream.CodecLongName audioStream,
                FormatName = FFProbeFormat.FormatName (Format probeData),
                FormatLongName = FFProbeFormat.FormatLongName (Format probeData),
                HasVideo = hasVideo,
                Metadata = withDefaults filePath
                  (lowerTags (ToLower lb) (Tags (Format probeData)) Map.empty),
                ProcessingTimeMs = elapsedMs ob \<rparr>"
proof (cases "statResult ob")
  case (Inl e)
  with assms show ?thesis by (simp add: analyzeFileWithFFProbe_def)
next
  case st: (Inr fileSize)
  show ?thesis
  proof (cases "probeOutput ob")
    case (Inl e)
    with assms st show ?thesis by (simp add: analyzeFileWithFFProbe_def)
  next
    case po: (Inr out)
    show ?thesis
    proof (cases "Unmarshal lb out")
      case (Inl e)
      with assms st po show ?thesis by (simp add: analyzeFileWithFFProbe_def)
    next
      case um: (Inr probeData)
      obtain a hasVideo where sc: "scanStreams (Streams probeData) None False = (a, hasVideo)"
        by (cases "scanStreams (Streams probeData) None False") 
      show ?thesis
      proof (cases a)
        case None
        with assms st po um sc show ?thesis by (simp add: analyzeFileWithFFProbe_def)
      next
        case (Some audioStream)
        with assms st po um sc that [of fileSize out probeData audioStream hasVideo]
        show ?thesis by (simp add: analyzeFileWithFFProbe_def)
      qed
    qed
  qed
qed

lemma lowerTags_dom: "dom (lowerTags f tags m) = dom m \<union> f ` fst ` set tags"
proof (induction tags arbitrary: m)
  case Nil
  show ?case by simp
next
  case (Cons kv tags)
  obtain k v where kv: "kv = (k, v)" by (cases kv)
  have "dom (lowerTags f tags (m(f k \<mapsto> v))) = dom (m(f k \<mapsto> v)) \<union> f ` fst ` set tags"
    by (rule Cons.IH)
  then show ?case by (simp add: kv)
qed

lemma lowerTags_other: "k \<notin> f ` fst ` set tags \<Longrightarrow> lowerTags f tags m k = m k"
  by (induction f tags m rule: lowerTags.induct) auto

lemma lowerTags_value:
  "k \<in> f ` fst ` set tags \<Longrightarrow>
     \<exists>k' v. (k', v) \<in> set tags \<and> f k' = k \<and> lowerTags f tags m k = Some v"
proof (induction f tags m rule: lowerTags.induct)
  case (1 lower metadata)
  then show ?case by simp
next
  case (2 lower k0 v0 rest metadata)
  show ?case
  proof (cases "k \<in> lower ` fst ` set rest")
    case True
    with 2 show ?thesis by fastforce
  next
    case False
    with 2 have "lower k0 = k" by auto
    with False show ?thesis by (auto simp: lowerTags_other)
  qed
qed

lemma setDefault_dom: "dom (setDefault k v m) = insert k (dom m)"
  by (auto simp: setDefault_def)

lemma setDefault_apply:
  "setDefault k v m k' = (if k' = k \<and> m k = None then Some v else m k')"
  by (simp add: setDefault_def)

lemma withDefaults_dom: "dom (withDefaults p m) = dom m \<union> {''title'', ''artist'', ''album''}"
  by (auto simp: withDefaults_def setDefault_dom)

lemma withDefaults_keep: "m k = Some v \<Longrightarrow> withDefaults p m k = Some v"
  by (auto simp: withDefaults_def setDefault_apply)

lemma withDefaults_title:
  "m ''title'' = None \<Longrightarrow> withDefaults p m ''title'' = Some (TrimSuffix (Base p) (Ext (Base p)))"
  by (simp add: withDefaults_def setDefault_apply)

lemma withDefaults_artist:
  "m ''artist'' = None \<Longrightarrow> withDefaults p m ''artist'' = Some ''Unknown Artist''"
  by (simp add: withDefaults_def setDefault_apply)

lemma withDefaults_album:
  "m ''album'' = None \<Longrightarrow> withDefaults p m ''album'' = Some ''Unknown Album''"
  by (simp add: withDefaults_def setDefault_apply)

lemma demo_lower:
  "asciiToLower ''ARTIST'' = ''artist''" "asciiToLower ''Genre'' = ''genre''"
  by code_simp+

lemma asciiLower_idem: "asciiLower (asciiLower ch) = asciiLower ch"
  by (simp add: asciiLower_def Let_def)

lemma asciiToLower_idem: "asciiToLower (asciiToLower t) = asciiToLower t"
  by (simp add: asciiToLower_def asciiLower_idem)

lemma demo_lower_fix:
  "asciiToLower ''title'' = ''title''" "asciiToLower ''artist'' = ''artist''"
  "asciiToLower ''album'' = ''album''"
  by code_simp+

lemma demo_audio:
  "find (\<lambda>st. CodecType st = ''audio'') (Streams demoOutput) = Some demoAudio"
  by (simp add: demoOutput_def demoCover_def demoAudio_def)

lemma demo_title: "TrimSuffix (Base ''/music/a.mp3'') (Ext (Base ''/music/a.mp3'')) = ''a''"
  "TrimSuffix (Base ''/music/c.wav'') (Ext (Base ''/music/c.wav'')) = ''c''"
  by (simp_all add: Base_def Ext_def isSep_def TrimSuffix_def HasSuffix_def)

lemma demo_analyze:
  "i \<noteq> 1 \<Longrightarrow> analyzeFileWithFFProbe demoLib (demoObserve i) p =
     Inr (demoInfo p (TrimSuffix (Base p) (Ext (Base p))))"
  by (simp add: analyzeFileWithFFProbe_def demoObserve_def demoLib_def demoOutput_def
      demoCover_def demoAudio_def demoInfo_def chooseBitRate_def withDefaults_def
      setDefault_def demo_lower)

lemma demo_analyze_fail:
  "analyzeFileWithFFProbe demoLib (demoObserve 1) p =
     Inl (FileNotFound ''no such file or directory'')"
  "analyzeFileWithFFProbe demoLib (demoObserve (Suc 0)) p =
     Inl (FileNotFound ''no such file or directory'')"
  by (simp_all add: analyzeFileWithFFProbe_def demoObserve_def)

text \<open>
  Claim C9. For a successful probe, the record's bit rate is the bit rate of the selected
  audio stream (the first stream of type \<open>audio\<close>) when the format bit rate parses to 0
  and the stream bit rate parses to a positive value, and the format bit rate otherwise.
\<close>

theorem bit_rate_fallback:
  assumes "analyzeFileWithFFProbe lb ob filePath = Inr info"
    and "probeOutput ob = Inr out"
    and "Unmarshal lb out = Inr probeData"
    and "find (\<lambda>st. CodecType st = ''audio'') (Streams probeData) = Some audioStream"
  shows "AudioInfo.BitRate info =
     (if ParseInt lb (FFProbeFormat.BitRate (Format probeData)) = 0
         \<and> 0 < sint (ParseInt lb (FFProbeStream.BitRate audioStream))
      then ParseInt lb (FFProbeStream.BitRate audioStream)
      else ParseInt lb (FFProbeFormat.BitRate (Format probeData)))"
proof -
  from assms(1) obtain fileSize output' probeData' audioStream' hasVideo where
    o: "probeOutput ob = Inr output'" and u: "Unmarshal lb output' = Inr probeData'"
    and sc: "scanStreams (Streams probeData') None False = (Some audioStream', hasVideo)"
    and b: "AudioInfo.BitRate info = chooseBitRate
                  (ParseInt lb (FFProbeFormat.BitRate (Format probeData')))
                  (ParseInt lb (FFProbeStream.BitRate audioStream'))"
    by (rule analyze_Inr) simp
  from o u assms(2,3) have pd: "probeData' = probeData" by simp
  have "fst (scanStreams (Streams probeData) None False) = Some audioStream"
    using assms(4) by (simp add: scanStreams_fst)
  with sc pd have "audioStream' = audioStream" by simp
  with b pd show ?thesis by (simp add: chooseBitRate_def)
qed

theorem bit_rate_fallback_witness:
  "analyzeFileWithFFProbe demoLib (demoObserve 0) ''/music/a.mp3''
     = Inr (demoInfo ''/music/a.mp3'' ''a'')
   \<and> probeOutput (demoObserve 0) = Inr ''{}''
   \<and> Unmarshal demoLib ''{}'' = Inr demoOutput
   \<and> find (\<lambda>st. CodecType st = ''audio'') (Streams demoOutput) = Some demoAudio
   \<and> ParseInt demoLib (FFProbeFormat.BitRate (Format demoOutput)) = 0
   \<and> AudioInfo.BitRate (demoInfo ''/music/a.mp3'' ''a'')
       = ParseInt demoLib (FFProbeStream.BitRate demoAudio)"
proof -
  have h1: "analyzeFileWithFFProbe demoLib (demoObserve 0) ''/music/a.mp3''
     = Inr (demoInfo ''/music/a.mp3'' ''a'')"
    using demo_analyze [of 0 "''/music/a.mp3''"] by (simp add: demo_title)
  have h2: "probeOutput (demoObserve 0) = Inr ''{}''" by (simp add: demoObserve_def)
  have h3: "Unmarshal demoLib ''{}'' = Inr demoOutput" by (simp add: demoLib_def)
  have h5: "ParseInt demoLib (FFProbeFormat.BitRate (Format demoOutput)) = 0"
    by (simp add: demoLib_def demoOutput_def)
  have h6: "ParseInt demoLib (FFProbeStream.BitRate demoAudio) = 128000"
    by (simp add: demoLib_def demoAudio_def)
  from bit_rate_fallback [OF h1 h2 h3 demo_audio] h1 h2 h3 h5 h6 demo_audio
  show ?thesis by simp
qed

text \<open>
  Claim C10. For a successful probe, the keys of the metadata map are the lowercased tag
  keys together with \<open>title\<close>, \<open>artist\<close> and \<open>album\<close>; a lowercased tag key keeps the
  value of a tag; a key of the three that no tag lowercases to gets its default (the base
  name without its extension, \<open>Unknown Artist\<close>, \<open>Unknown Album\<close>); and every key is a
  fixed point of \<open>ToLower\<close> when \<open>ToLower\<close> is idempotent and leaves the three names as
  they are.
\<close>

theorem metadata_defaults:
  assumes "analyzeFileWithFFProbe lb ob filePath = Inr info"
    and "probeOutput ob = Inr out"
    and "Unmarshal lb out = Inr probeData"
  shows "dom (Metadata info) =
           ToLower lb ` fst ` set (Tags (Format probeData)) \<union> {''title'', ''artist'', ''album''}
       \<and> (\<forall>k \<in> ToLower lb ` fst ` set (Tags (Format probeData)).
             \<exists>k' v. (k', v) \<in> set (Tags (Format probeData)) \<and> ToLower lb k' = k
                    \<and> Metadata info k = Some v)
       \<and> (''title'' \<notin> ToLower lb ` fst ` set (Tags (Format probeData)) \<longrightarrow>
             Metadata info ''title'' = Some (TrimSuffix (Base filePath) (Ext (Base filePath))))
       \<and> (''artist'' \<notin> ToLower lb ` fst ` set (Tags (Format probeData)) \<longrightarrow>
             Metadata info ''artist'' = Some ''Unknown Artist'')
       \<and> (''album'' \<notin> ToLower lb ` fst ` set (Tags (Format probeData)) \<longrightarrow>
             Metadata info ''album'' = Some ''Unknown Album'')
       \<and> ((\<forall>t. ToLower lb (ToLower lb t) = ToLower lb t)
            \<and> ToLower lb ''title'' = ''title'' \<and> ToLower lb ''artist'' = ''artist''
            \<and> ToLower lb ''album'' = ''album'' \<longrightarrow>
             (\<forall>k \<in> dom (Metadata info). ToLower lb k = k))"
proof -
  let ?tags = "Tags (Format probeData)"
  let ?m = "lowerTags (ToLower lb) ?tags Map.empty"
  from assms(1) obtain output' probeData' where
    o: "probeOutput ob = Inr output'" and u: "Unmarshal lb output' = Inr probeData'"
    and m: "Metadata info = withDefaults filePath
                  (lowerTags (ToLower lb) (Tags (Format probeData')) Map.empty)"
    by (rule analyze_Inr) simp
  from o u assms(2,3) have "probeData' = probeData" by simp
  with m have md: "Metadata info = withDefaults filePath ?m" by simp
  have d: "dom (Metadata info) = ToLower lb ` fst ` set ?tags \<union> {''title'', ''artist'', ''album''}"
    by (simp add: md withDefaults_dom lowerTags_dom)
  have v: "\<forall>k \<in> ToLower lb ` fst ` set ?tags.
             \<exists>k' v. (k', v) \<in> set ?tags \<and> ToLower lb k' = k \<and> Metadata info k = Some v"
  proof
    fix k assume "k \<in> ToLower lb ` fst ` set ?tags"
    then obtain k' v where "(k', v) \<in> set ?tags" "ToLower lb k' = k" "?m k = Some v"
      using lowerTags_value [of k "ToLower lb" ?tags Map.empty] by blast
    then show "\<exists>k' v. (k', v) \<in> set ?tags \<and> ToLower lb k' = k \<and> Metadata info k = Some v"
      unfolding md using withDefaults_keep by blast
  qed
  have t: "''title'' \<notin> ToLower lb ` fst ` set ?tags \<longrightarrow>
             Metadata info ''title'' = Some (TrimSuffix (Base filePath) (Ext (Base filePath)))"
    by (simp add: md withDefaults_title lowerTags_other)
  have a: "''artist'' \<notin> ToLower lb ` fst ` set ?tags \<longrightarrow>
             Metadata info ''artist'' = Some ''Unknown Artist''"
    by (simp add: md withDefaults_artist lowerTags_other)
  have b: "''album'' \<notin> ToLower lb ` fst ` set ?tags \<longrightarrow>
             Metadata info ''album'' = Some ''Unknown Album''"
    by (simp add: md withDefaults_album lowerTags_other)
  have l: "(\<forall>t. ToLower lb (ToLower lb t) = ToLower lb t)
            \<and> ToLower lb ''title'' = ''title'' \<and> ToLower lb ''artist'' = ''artist''
            \<and> ToLower lb ''album'' = ''album'' \<longrightarrow>
             (\<forall>k \<in> dom (Metadata info). ToLower lb k = k)"
    unfolding d by auto
  from d v t a b l show ?thesis by blast
qed

theorem metadata_defaults_witness:
  "analyzeFileWithFFProbe demoLib (demoObserve 2) ''/music/c.wav''
     = Inr (demoInfo ''/music/c.wav'' ''c'')
   \<and> probeOutput (demoObserve 2) = Inr ''{}''
   \<and> Unmarshal demoLib ''{}'' = Inr demoOutput
   \<and> dom (Metadata (demoInfo ''/music/c.wav'' ''c''))
       = {''artist'', ''genre'', ''title'', ''album''}
   \<and> Metadata (demoInfo ''/music/c.wav'' ''c'') ''title''
       = Some (TrimSuffix (Base ''/music/c.wav'') (Ext (Base ''/music/c.wav'')))
   \<and> Metadata (demoInfo ''/music/c.wav'' ''c'') ''album'' = Some ''Unknown Album''
   \<and> Metadata (demoInfo ''/music/c.wav'' ''c'') ''artist'' = Some ''Band''
   \<and> ToLower demoLib ` dom (Metadata (demoInfo ''/music/c.wav'' ''c''))
       = dom (Metadata (demoInfo ''/music/c.wav'' ''c''))"
proof -
  have h1: "analyzeFileWithFFProbe demoLib (demoObserve 2) ''/music/c.wav''
     = Inr (demoInfo ''/music/c.wav'' ''c'')"
    using demo_analyze [of 2 "''/music/c.wav''"] by (simp add: demo_title)
  have h2: "probeOutput (demoObserve 2) = Inr ''{}''" by (simp add: demoObserve_def)
  have h3: "Unmarshal demoLib ''{}'' = Inr demoOutput" by (simp add: demoLib_def)
  have tags: "ToLower demoLib ` fst ` set (Tags (Format demoOutput)) = {''artist'', ''genre''}"
    by (simp add: demoLib_def demoOutput_def demo_lower)
  have idem: "\<forall>t. ToLower demoLib (ToLower demoLib t) = ToLower demoLib t"
    by (simp add: demoLib_def asciiToLower_idem)
  have fx: "ToLower demoLib ''title'' = ''title''" "ToLower demoLib ''artist'' = ''artist''"
    "ToLower demoLib ''album'' = ''album''"
    by (simp_all add: demoLib_def demo_lower_fix)
  have art: "Metadata (demoInfo ''/music/c.wav'' ''c'') ''artist'' = Some ''Band''"
    by (simp add: demoInfo_def)
  note md = metadata_defaults [OF h1 h2 h3]
  note last = md [THEN conjunct2, THEN conjunct2, THEN conjunct2, THEN conjunct2, THEN conjunct2]
  from idem fx have pre: "(\<forall>t. ToLower demoLib (ToLower demoLib t) = ToLower demoLib t)
            \<and> ToLower demoLib ''title'' = ''title'' \<and> ToLower demoLib ''artist'' = ''artist''
            \<and> ToLower demoLib ''album'' = ''album''"
    by (intro conjI)
  from last pre
  have low: "\<forall>k \<in> dom (Metadata (demoInfo ''/music/c.wav'' ''c'')). ToLower demoLib k = k"
    by (rule mp)
  have "ToLower demoLib ` dom (Metadata (demoInfo ''/music/c.wav'' ''c''))
       = id ` dom (Metadata (demoInfo ''/music/c.wav'' ''c''))"
    by (rule image_cong) (simp_all add: low)
  then have img: "ToLower demoLib ` dom (Metadata (demoInfo ''/music/c.wav'' ''c''))
       = dom (Metadata (demoInfo ''/music/c.wav'' ''c''))"
    by simp
  have d: "dom (Metadata (demoInfo ''/music/c.wav'' ''c''))
       = {''artist'', ''genre'', ''title'', ''album''}"
    using md [THEN conjunct1] unfolding tags by (simp add: insert_commute)
  have t: "Metadata (demoInfo ''/music/c.wav'' ''c'') ''title''
       = Some (TrimSuffix (Base ''/music/c.wav'') (Ext (Base ''/music/c.wav'')))"
    using md [THEN conjunct2, THEN conjunct2, THEN conjunct1] unfolding tags by simp
  have a: "Metadata (demoInfo ''/music/c.wav'' ''c'') ''album'' = Some ''Unknown Album''"
    using md [THEN conjunct2, THEN conjunct2, THEN conjunct2, THEN conjunct2, THEN conjunct1]
    unfolding tags by simp
  from h1 h2 h3 d t a art img show ?thesis by (intro conjI)
qed

section \<open>The invariant holds in every reachable state\<close>

lemma filter_update_count:
  "i < length xs \<Longrightarrow>
     int (length (filter P (xs[i := y]))) =
       int (length (filter P xs)) + (if P y then 1 else 0) - (if P (xs ! i) then 1 else 0)"
proof (induction xs arbitrary: i)
  case Nil
  then show ?case by simp
next
  case (Cons x xs)
  show ?case
  proof (cases i)
    case 0
    then show ?thesis by simp
  next
    case (Suc j)
    with Cons.prems have "j < length xs" by simp
    from Cons.IH [OF this] Suc show ?thesis by (auto split: if_splits)
  qed
qed

lemma filter_update_same:
  "i < length xs \<Longrightarrow> P y = P (xs ! i) \<Longrightarrow>
     length (filter P (xs[i := y])) = length (filter P xs)"
  using filter_update_count [of i xs P y] by simp

lemma filter_update_gain:
  "i < length xs \<Longrightarrow> P y \<Longrightarrow> \<not> P (xs ! i) \<Longrightarrow>
     length (filter P (xs[i := y])) = Suc (length (filter P xs))"
  using filter_update_count [of i xs P y] by simp

lemma filter_update_loss:
  "i < length xs \<Longrightarrow> \<not> P y \<Longrightarrow> P (xs ! i) \<Longrightarrow>
     Suc (length (filter P (xs[i := y]))) = length (filter P xs)"
  using filter_update_count [of i xs P y] by simp

lemma filter_pos: "i < length xs \<Longrightarrow> P (xs ! i) \<Longrightarrow> 0 < length (filter P xs)"
  by (auto simp: filter_empty_conv)

lemmas pc_defs = stored_def counted_def live_def holdsPermit_def

lemma start_invariant:
  assumes "startProcessFiles c = Inr s0"
  shows "invariant c s0"
proof -
  from assms have s0: "s0 = \<lparr> results = replicate (length (files c)) zeroResult,
                 writes = replicate (length (files c)) 0,
                 semaphore = 0,
                 processed = 0,
                 wg = 0,
                 spawned = 0,
                 gpcs = replicate (length (files c)) NotStarted,
                 mainpc = Forking,
                 progressDone = False,
                 ticker = (if quiet c then Absent else Polling),
                 shown = [],
                 logs = (if maxConcurrency c > cpuLimit c
                         then [Warning (maxConcurrency c) (cpuLimit c)] else [])
                        @ [FoundFiles (length (files c)),
                           Processing (length (files c)) (effectiveConcurrency c)] \<rparr>"
    by (simp add: startProcessFiles_def split: if_splits)
  have "lensOk c s0" by (simp add: s0 lensOk_def)
  moreover have "slotsOk c s0" by (simp add: s0 slotsOk_def slotOk_def pc_defs)
  moreover have "countsOk c s0" by (simp add: s0 countsOk_def pc_defs)
  moreover have "controlOk c s0" by (simp add: s0 controlOk_def)
  ultimately show ?thesis by (simp add: invariant_def)
qed

lemma slotsOk_move:
  assumes "slotsOk c s" and "i < length (files c)" and "length (gpcs s) = length (files c)"
    and "gpcs s ! i \<noteq> NotStarted" and "p \<noteq> NotStarted" and "stored p = stored (gpcs s ! i)"
    and "gpcs s' = (gpcs s)[i := p]" and "results s' = results s" and "writes s' = writes s"
    and "spawned s' = spawned s"
  shows "slotsOk c s'"
  unfolding slotsOk_def
proof (intro allI impI)
  fix j assume j: "j < length (files c)"
  from assms(1) j have a: "slotOk c s j" and b: "(gpcs s ! j = NotStarted) = (spawned s \<le> j)"
    by (simp_all add: slotsOk_def)
  show "slotOk c s' j \<and> ((gpcs s' ! j = NotStarted) = (spawned s' \<le> j))"
  proof (cases "j = i")
    case True
    with a b assms show ?thesis by (simp add: slotOk_def)
  next
    case False
    with a b assms show ?thesis by (simp add: slotOk_def)
  qed
qed

lemma slotsOk_store:
  assumes "slotsOk c s" and "i < length (files c)" and "lensOk c s"
    and "gpcs s ! i = InFlight"
    and "gpcs s' = (gpcs s)[i := Stored]"
    and "results s' = (results s)[i := probeResult c i]"
    and "writes s' = (writes s)[i := writes s ! i + 1]"
    and "spawned s' = spawned s"
  shows "slotsOk c s'"
  unfolding slotsOk_def
proof (intro allI impI)
  fix j assume j: "j < length (files c)"
  from assms(1) j have a: "slotOk c s j" and b: "(gpcs s ! j = NotStarted) = (spawned s \<le> j)"
    by (simp_all add: slotsOk_def)
  from assms(3) have l: "length (gpcs s) = length (files c)"
    "length (results s) = length (files c)" "length (writes s) = length (files c)"
    by (simp_all add: lensOk_def)
  show "slotOk c s' j \<and> ((gpcs s' ! j = NotStarted) = (spawned s' \<le> j))"
  proof (cases "j = i")
    case True
    with a b assms l show ?thesis by (simp add: slotOk_def pc_defs)
  next
    case False
    with a b assms l show ?thesis by (simp add: slotOk_def)
  qed
qed

lemma slotsOk_spawn:
  assumes "slotsOk c s" and "spawned s < length (files c)"
    and "length (gpcs s) = length (files c)"
    and "gpcs s' = (gpcs s)[spawned s := Blocked]" and "results s' = results s"
    and "writes s' = writes s" and "spawned s' = Suc (spawned s)"
  shows "slotsOk c s'"
  unfolding slotsOk_def
proof (intro allI impI)
  fix j assume j: "j < length (files c)"
  from assms(1) j have a: "slotOk c s j" and b: "(gpcs s ! j = NotStarted) = (spawned s \<le> j)"
    by (simp_all add: slotsOk_def)
  show "slotOk c s' j \<and> ((gpcs s' ! j = NotStarted) = (spawned s' \<le> j))"
  proof (cases "j = spawned s")
    case True
    with a b assms show ?thesis by (simp add: slotOk_def pc_defs)
  next
    case False
    with a b assms show ?thesis by (auto simp add: slotOk_def)
  qed
qed

lemma slotsOk_same:
  assumes "slotsOk c s" and "gpcs s' = gpcs s" and "results s' = results s"
    and "writes s' = writes s" and "spawned s' = spawned s"
  shows "slotsOk c s'"
  using assms by (simp add: slotsOk_def slotOk_def)

lemma worker_invariant:
  assumes inv: "invariant c s" and st: "workerStep c i s = Some s'"
  shows "invariant c s'"
proof -
  from st have i: "i < length (files c)"
    by (simp add: workerStep_def split: if_splits)
  from inv have le: "lensOk c s" and sl: "slotsOk c s" and co: "countsOk c s"
    and ct: "controlOk c s"
    by (simp_all add: invariant_def)
  from le i have ig: "i < length (gpcs s)" and lg: "length (gpcs s) = length (files c)"
    by (simp_all add: lensOk_def)
  show ?thesis
  proof (cases "gpcs s ! i")
    case NotStarted
    with st i show ?thesis by (simp add: workerStep_def)
  next
    case Blocked
    with st i have en: "int (semaphore s) < effectiveConcurrency c"
      and s': "s' = s\<lparr> semaphore := semaphore s + 1, gpcs := (gpcs s)[i := InFlight] \<rparr>"
      by (auto simp: workerStep_def split: if_splits)
    have "lensOk c s'" using le by (simp add: s' lensOk_def)
    moreover have "slotsOk c s'"
      by (rule slotsOk_move [OF sl i lg, where p = InFlight]) (simp_all add: s' Blocked pc_defs)
    moreover have "countsOk c s'" using co ig Blocked en
      by (auto simp add: s' countsOk_def filter_update_same filter_update_gain pc_defs)
    moreover have "controlOk c s'" using ct by (auto simp add: s' controlOk_def)
    ultimately show ?thesis by (simp add: invariant_def)
  next
    case InFlight
    with st i have
      s': "s' = s\<lparr> results := (results s)[i := probeResult c i],
                   writes := (writes s)[i := writes s ! i + 1],
                   gpcs := (gpcs s)[i := Stored] \<rparr>"
      by (auto simp: workerStep_def split: if_splits)
    have "lensOk c s'" using le by (simp add: s' lensOk_def)
    moreover have "slotsOk c s'"
      by (rule slotsOk_store [OF sl i le InFlight]) (simp_all add: s')
    moreover have "countsOk c s'" using co ig InFlight
      by (auto simp add: s' countsOk_def filter_update_same filter_update_gain pc_defs)
    moreover have "controlOk c s'" using ct by (auto simp add: s' controlOk_def)
    ultimately show ?thesis by (simp add: invariant_def)
  next
    case Stored
    with st i have
      s': "s' = s\<lparr> processed := processed s + 1, gpcs := (gpcs s)[i := Counted] \<rparr>"
      by (auto simp: workerStep_def split: if_splits)
    have "lensOk c s'" using le by (simp add: s' lensOk_def)
    moreover have "slotsOk c s'"
      by (rule slotsOk_move [OF sl i lg, where p = Counted]) (simp_all add: s' Stored pc_defs)
    moreover have "countsOk c s'" using co ig Stored
      by (auto simp add: s' countsOk_def filter_update_same filter_update_gain pc_defs)
    moreover have "controlOk c s'" using ct by (auto simp add: s' controlOk_def)
    ultimately show ?thesis by (simp add: invariant_def)
  next
    case Counted
    with st i have ne: "semaphore s \<noteq> 0"
      and s': "s' = s\<lparr> semaphore := semaphore s - 1, gpcs := (gpcs s)[i := Released] \<rparr>"
      by (auto simp: workerStep_def split: if_splits)
    from ig Counted have dec: "Suc (length (filter holdsPermit ((gpcs s)[i := Released])))
        = length (filter holdsPermit (gpcs s))"
      by (intro filter_update_loss) (simp_all add: pc_defs)
    have "lensOk c s'" using le by (simp add: s' lensOk_def)
    moreover have "slotsOk c s'"
      by (rule slotsOk_move [OF sl i lg, where p = Released]) (simp_all add: s' Counted pc_defs)
    moreover have "countsOk c s'" using co ig Counted ne dec
      by (auto simp add: s' countsOk_def filter_update_same pc_defs)
    moreover have "controlOk c s'" using ct by (auto simp add: s' controlOk_def)
    ultimately show ?thesis by (simp add: invariant_def)
  next
    case Released
    with st i have
      s': "s' = s\<lparr> wg := wg s - 1, gpcs := (gpcs s)[i := Exited] \<rparr>"
      by (auto simp: workerStep_def split: if_splits)
    from ig Released have dec: "Suc (length (filter live ((gpcs s)[i := Exited])))
        = length (filter live (gpcs s))"
      by (intro filter_update_loss) (simp_all add: pc_defs)
    have "live (gpcs s ! i)" by (simp add: Released pc_defs)
    with ig have "0 < length (filter live (gpcs s))" by (rule filter_pos)
    with co have "wg s \<noteq> 0" by (simp add: countsOk_def)
    with ct have fk: "mainpc s = Forking" by (auto simp: controlOk_def)
    have "lensOk c s'" using le by (simp add: s' lensOk_def)
    moreover have "slotsOk c s'"
      by (rule slotsOk_move [OF sl i lg, where p = Exited]) (simp_all add: s' Released pc_defs)
    moreover have "countsOk c s'" using co ig Released dec
      by (auto simp add: s' countsOk_def filter_update_same pc_defs)
    moreover have "controlOk c s'" using ct fk by (auto simp add: s' controlOk_def)
    ultimately show ?thesis by (simp add: invariant_def)
  next
    case Exited
    with st i show ?thesis by (simp add: workerStep_def)
  qed
qed

lemma main_invariant:
  assumes inv: "invariant c s" and st: "mainStep c s = Some s'"
  shows "invariant c s'"
proof -
  from inv have le: "lensOk c s" and sl: "slotsOk c s" and co: "countsOk c s"
    and ct: "controlOk c s"
    by (simp_all add: invariant_def)
  from le have lg: "length (gpcs s) = length (files c)" by (simp add: lensOk_def)
  show ?thesis
  proof (cases "mainpc s")
    case Forking
    show ?thesis
    proof (cases "spawned s < length (files c)")
      case True
      with st Forking have
        s': "s' = s\<lparr> wg := wg s + 1,
                        gpcs := (gpcs s)[spawned s := Blocked],
                        spawned := spawned s + 1 \<rparr>"
        by (simp add: mainStep_def)
      from sl True have ns: "gpcs s ! spawned s = NotStarted" by (simp add: slotsOk_def)
      from True lg have ig: "spawned s < length (gpcs s)" by simp
      have "lensOk c s'" using le True by (simp add: s' lensOk_def)
      moreover have "slotsOk c s'"
        by (rule slotsOk_spawn [OF sl True lg]) (simp_all add: s')
      moreover have "countsOk c s'" using co ig ns
        by (auto simp add: s' countsOk_def filter_update_same filter_update_gain pc_defs)
      moreover have "controlOk c s'" using ct Forking by (auto simp add: s' controlOk_def)
      ultimately show ?thesis by (simp add: invariant_def)
    next
      case False
      with st Forking have w: "wg s = 0"
        and s': "s' = s\<lparr> mainpc := Joining, progressDone := True \<rparr>"
        by (auto simp: mainStep_def split: if_splits)
      from False le have sp: "spawned s = length (files c)" by (simp add: lensOk_def)
      have "lensOk c s'" using le by (simp add: s' lensOk_def)
      moreover have "slotsOk c s'" by (rule slotsOk_same [OF sl]) (simp_all add: s')
      moreover have "countsOk c s'" using co by (auto simp add: s' countsOk_def)
      moreover have "controlOk c s'" using ct w sp by (auto simp add: s' controlOk_def)
      ultimately show ?thesis by (simp add: invariant_def)
    qed
  next
    case Joining
    with st have tk: "ticker s \<noteq> Polling"
      and s': "s' = s\<lparr> mainpc := Returned, logs := logs s @ closingLogs (results s) \<rparr>"
      by (auto simp: mainStep_def split: if_splits)
    have "lensOk c s'" using le by (simp add: s' lensOk_def)
    moreover have "slotsOk c s'" by (rule slotsOk_same [OF sl]) (simp_all add: s')
    moreover have "countsOk c s'" using co by (auto simp add: s' countsOk_def)
    moreover have "controlOk c s'" using ct tk Joining by (auto simp add: s' controlOk_def)
    ultimately show ?thesis by (simp add: invariant_def)
  next
    case Returned
    with st show ?thesis by (simp add: mainStep_def)
  qed
qed

lemma tick_invariant:
  assumes inv: "invariant c s" and st: "tickStep s = Some s'"
  shows "invariant c s'"
proof -
  from st have s': "s' = s\<lparr> shown := shown s @ [processed s] \<rparr>"
    by (auto simp: tickStep_def split: if_splits)
  from inv show ?thesis
    by (auto simp add: s' invariant_def lensOk_def slotsOk_def slotOk_def countsOk_def
        controlOk_def)
qed

lemma stop_invariant:
  assumes inv: "invariant c s" and st: "stopStep s = Some s'"
  shows "invariant c s'"
proof -
  from st have tk: "ticker s = Polling" and pd: "progressDone s"
    and s': "s' = s\<lparr> ticker := Stopped \<rparr>"
    by (auto simp: stopStep_def split: if_splits)
  from inv tk pd show ?thesis
    by (auto simp add: s' invariant_def lensOk_def slotsOk_def slotOk_def countsOk_def
        controlOk_def)
qed

lemma step_invariant: "invariant c s \<Longrightarrow> step c a s = Some s' \<Longrightarrow> invariant c s'"
  by (cases a) (auto intro: main_invariant worker_invariant tick_invariant stop_invariant)

lemma exec_invariant: "invariant c s \<Longrightarrow> exec c sched s = Some s' \<Longrightarrow> invariant c s'"
proof (induction sched arbitrary: s)
  case Nil
  then show ?case by simp
next
  case (Cons a sched)
  from Cons.prems(2) obtain s1 where s1: "step c a s = Some s1" and r: "exec c sched s1 = Some s'"
    by (auto split: option.splits)
  from Cons.prems(1) s1 have "invariant c s1" by (rule step_invariant)
  then show ?case using r by (rule Cons.IH)
qed

lemma exec_append:
  "exec c (xs @ ys) s = (case exec c xs s of None \<Rightarrow> None | Some s1 \<Rightarrow> exec c ys s1)"
  by (induction xs arbitrary: s) (auto split: option.splits)

section \<open>The state at the return\<close>

lemma all_exited:
  assumes inv: "invariant c s" and m: "mainpc s \<noteq> Forking" and i: "i < length (files c)"
  shows "gpcs s ! i = Exited"
proof -
  from inv have le: "lensOk c s" and sl: "slotsOk c s" and co: "countsOk c s"
    and ct: "controlOk c s"
    by (simp_all add: invariant_def)
  from ct m have sp: "spawned s = length (files c)" and w: "wg s = 0"
    by (auto simp: controlOk_def)
  from le i have ig: "i < length (gpcs s)" by (simp add: lensOk_def)
  from co w have "filter live (gpcs s) = []" by (simp add: countsOk_def)
  with ig have "\<not> live (gpcs s ! i)" by (auto simp: filter_empty_conv)
  moreover from sl i sp have "gpcs s ! i \<noteq> NotStarted" by (simp add: slotsOk_def)
  ultimately show ?thesis by (simp add: live_def)
qed

lemma joined_results:
  assumes inv: "invariant c s" and m: "mainpc s \<noteq> Forking"
  shows "results s = map (probeResult c) [0 ..< length (files c)]"
    and "writes s = replicate (length (files c)) 1"
proof -
  from inv have le: "lensOk c s" and sl: "slotsOk c s" by (simp_all add: invariant_def)
  have slot: "results s ! i = probeResult c i \<and> writes s ! i = 1" if i: "i < length (files c)" for i
  proof -
    from all_exited [OF inv m i] have "stored (gpcs s ! i)" by (simp add: stored_def)
    moreover from sl i have "slotOk c s i" by (simp add: slotsOk_def)
    ultimately show ?thesis by (simp add: slotOk_def)
  qed
  from le have lr: "length (results s) = length (files c)"
    and lw: "length (writes s) = length (files c)" by (simp_all add: lensOk_def)
  show "results s = map (probeResult c) [0 ..< length (files c)]"
    by (rule nth_equalityI) (simp_all add: lr slot)
  show "writes s = replicate (length (files c)) 1"
    by (rule nth_equalityI) (simp_all add: lw slot)
qed

lemma processFiles_invariant:
  assumes "processFiles c sched = Some s"
  shows "invariant c s"
proof -
  from assms obtain s0 where s0: "startProcessFiles c = Inr s0" and ex: "exec c sched s0 = Some s"
    by (auto simp: processFiles_def split: sum.splits)
  from s0 have "invariant c s0" by (rule start_invariant)
  then show ?thesis using ex by (rule exec_invariant)
qed

lemma returned_results:
  assumes "processFiles c sched = Some s" and "mainpc s = Returned"
  shows "results s = map (probeResult c) [0 ..< length (files c)]"
  using joined_results(1) [OF processFiles_invariant [OF assms(1)]] assms(2) by simp

lemma step_logsOk:
  assumes inv: "invariant c s" and l: "logsOk s" and st: "step c a s = Some s'"
  shows "logsOk s'"
proof (cases a)
  case MainThread
  with st have ms: "mainStep c s = Some s'" by simp
  show ?thesis
  proof (cases "mainpc s")
    case Forking
    with ms show ?thesis by (auto simp: mainStep_def logsOk_def split: if_splits)
  next
    case Joining
    with ms show ?thesis by (auto simp: mainStep_def logsOk_def split: if_splits)
  next
    case Returned
    with ms show ?thesis by (simp add: mainStep_def)
  qed
next
  case (Worker i)
  with st have ws: "workerStep c i s = Some s'" by simp
  then have i: "i < length (files c)" by (simp add: workerStep_def split: if_splits)
  have "mainpc s = Forking"
  proof (rule ccontr)
    assume "mainpc s \<noteq> Forking"
    from all_exited [OF inv this i] ws i show False by (simp add: workerStep_def)
  qed
  with ws i have "mainpc s' = Forking"
    by (auto simp: workerStep_def split: if_splits gpc.splits)
  then show ?thesis by (simp add: logsOk_def)
next
  case ProgressTick
  with st l show ?thesis by (auto simp: tickStep_def logsOk_def split: if_splits)
next
  case ProgressStop
  with st l show ?thesis by (auto simp: stopStep_def logsOk_def split: if_splits)
qed

lemma exec_logsOk:
  "invariant c s \<Longrightarrow> logsOk s \<Longrightarrow> exec c sched s = Some s' \<Longrightarrow> logsOk s'"
proof (induction sched arbitrary: s)
  case Nil
  then show ?case by simp
next
  case (Cons a sched)
  from Cons.prems(3) obtain s1 where s1: "step c a s = Some s1" and r: "exec c sched s1 = Some s'"
    by (auto split: option.splits)
  from Cons.prems(1) s1 have i1: "invariant c s1" by (rule step_invariant)
  from Cons.prems(1,2) s1 have "logsOk s1" by (rule step_logsOk)
  with i1 show ?case using r by (rule Cons.IH)
qed

lemma processFiles_logsOk:
  assumes "processFiles c sched = Some s"
  shows "logsOk s"
proof -
  from assms obtain s0 where s0: "startProcessFiles c = Inr s0" and ex: "exec c sched s0 = Some s"
    by (auto simp: processFiles_def split: sum.splits)
  from s0 have l0: "logsOk s0" by (auto simp: startProcessFiles_def logsOk_def split: if_splits)
  from start_invariant [OF s0] l0 ex show ?thesis by (rule exec_logsOk)
qed

lemma toResult_not_zero: "toResult r \<noteq> zeroResult"
  by (cases r) (simp_all add: toResult_def zeroResult_def)

lemma toResult_simps:
  "toResult (Inl e) = \<lparr> Info = None, Error = Some e \<rparr>"
  "toResult (Inr info) = \<lparr> Info = Some info, Error = None \<rparr>"
  by (simp_all add: toResult_def)

lemma countResults_acc:
  "countResults (map toResult xs) (a, b) = (a + length (rights xs), b + length (lefts xs))"
proof (induction xs arbitrary: a b)
  case Nil
  show ?case by simp
next
  case (Cons x xs)
  show ?case by (cases x) (simp_all add: toResult_simps Cons.IH)
qed

lemma results_outcomes: "map (probeResult c) [0 ..< n] = map toResult (map (outcome c) [0 ..< n])"
  by (simp add: probeResult_def outcome_def)

lemma length_rights_lefts: "length (rights xs) + length (lefts xs) = length xs"
  by (induction xs rule: rights.induct) simp_all

section \<open>The concrete run, evaluated\<close>

lemma demo_config:
  "files demoConfig = [''/music/a.mp3'', ''/music/b.flac'', ''/music/c.wav'']"
  "effectiveConcurrency demoConfig = 2"
  "quiet demoConfig = False"
  "cpuLimit demoConfig = 48"
  "maxConcurrency demoConfig = 2"
  "lib demoConfig = demoLib"
  "observe demoConfig = demoObserve"
  by (simp_all add: demoConfig_def effectiveConcurrency_def cpuLimit_def)

lemma demo_run:
  "\<exists>s. processFiles demoConfig demoSchedule = Some s \<and> mainpc s = Returned
     \<and> shown s = [0, 1, 3, 3]"
  by (simp add: processFiles_def startProcessFiles_def demoSchedule_def demo_config
      mainStep_def workerStep_def tickStep_def stopStep_def)

lemma demo_sequential:
  "\<exists>s. processFiles demoConfig (sequentialSchedule demoConfig) = Some s \<and> mainpc s = Returned"
  by (simp add: processFiles_def startProcessFiles_def sequentialSchedule_def workerRound_def
      demo_config mainStep_def workerStep_def tickStep_def stopStep_def)

lemma filter_le_mono:
  "(\<And>x. P x \<Longrightarrow> Q x) \<Longrightarrow> length (filter P xs) \<le> length (filter Q xs)"
  by (induction xs) auto

lemma writes_le_one:
  assumes inv: "invariant c s" and i: "i < length (files c)"
  shows "writes s ! i \<le> 1"
proof -
  from inv i have "slotOk c s i" by (simp add: invariant_def slotsOk_def)
  then show ?thesis by (simp add: slotOk_def split: if_splits)
qed

section \<open>Steps do not read the outcomes; no reachable state is stuck\<close>

lemma step_sameControl:
  assumes sh: "sameShape c c'" and sc: "sameControl s t" and st: "step c a s = Some s1"
  shows "\<exists>t1. step c' a t = Some t1 \<and> sameControl s1 t1"
proof (cases a)
  case MainThread
  with st have ms: "mainStep c s = Some s1" by simp
  show ?thesis
  proof (cases "mainpc s")
    case Forking
    with ms sh sc MainThread show ?thesis
      by (auto simp: mainStep_def sameControl_def sameShape_def split: if_splits)
  next
    case Joining
    with ms sh sc MainThread show ?thesis
      by (auto simp: mainStep_def sameControl_def sameShape_def split: if_splits)
  next
    case Returned
    with ms show ?thesis by (simp add: mainStep_def)
  qed
next
  case (Worker i)
  with st have ws: "workerStep c i s = Some s1" by simp
  then have i: "i < length (files c)" by (simp add: workerStep_def split: if_splits)
  with sh have i': "i < length (files c')" by (simp add: sameShape_def)
  from sc have g: "gpcs t = gpcs s" by (simp add: sameControl_def)
  show ?thesis
  proof (cases "gpcs s ! i")
    case NotStarted
    with ws i show ?thesis by (simp add: workerStep_def)
  next
    case Blocked
    with ws i i' sh sc g Worker show ?thesis
      by (auto simp: workerStep_def sameControl_def sameShape_def split: if_splits)
  next
    case InFlight
    with ws i i' sh sc g Worker show ?thesis
      by (auto simp: workerStep_def sameControl_def sameShape_def split: if_splits)
  next
    case Stored
    with ws i i' sh sc g Worker show ?thesis
      by (auto simp: workerStep_def sameControl_def sameShape_def split: if_splits)
  next
    case Counted
    with ws i i' sh sc g Worker show ?thesis
      by (auto simp: workerStep_def sameControl_def sameShape_def split: if_splits)
  next
    case Released
    with ws i i' sh sc g Worker show ?thesis
      by (auto simp: workerStep_def sameControl_def sameShape_def split: if_splits)
  next
    case Exited
    with ws i show ?thesis by (simp add: workerStep_def)
  qed
next
  case ProgressTick
  with st sc show ?thesis
    by (auto simp: tickStep_def sameControl_def split: if_splits)
next
  case ProgressStop
  with st sc show ?thesis
    by (auto simp: stopStep_def sameControl_def split: if_splits)
qed

lemma exec_sameControl:
  "sameShape c c' \<Longrightarrow> sameControl s t \<Longrightarrow> exec c sched s = Some s1 \<Longrightarrow>
     \<exists>t1. exec c' sched t = Some t1 \<and> sameControl s1 t1"
proof (induction sched arbitrary: s t)
  case Nil
  then show ?case by simp
next
  case (Cons a sched)
  from Cons.prems(3) obtain s2 where s2: "step c a s = Some s2" and r: "exec c sched s2 = Some s1"
    by (auto split: option.splits)
  from step_sameControl [OF Cons.prems(1,2) s2]
  obtain t2 where t2: "step c' a t = Some t2" and sc2: "sameControl s2 t2" by blast
  from Cons.IH [OF Cons.prems(1) sc2 r] t2 show ?case by simp
qed

lemma processFiles_sameControl:
  assumes sh: "sameShape c c'" and p: "processFiles c sched = Some s"
  shows "\<exists>s'. processFiles c' sched = Some s' \<and> sameControl s s'"
proof -
  from p obtain s0 where s0: "startProcessFiles c = Inr s0" and ex: "exec c sched s0 = Some s"
    by (auto simp: processFiles_def split: sum.splits)
  from s0 sh obtain t0 where t0: "startProcessFiles c' = Inr t0" and sc: "sameControl s0 t0"
    by (auto simp: startProcessFiles_def sameShape_def sameControl_def split: if_splits)
  from exec_sameControl [OF sh sc ex] t0 show ?thesis by (simp add: processFiles_def)
qed

lemma filter_witness: "0 < length (filter P xs) \<Longrightarrow> \<exists>i < length xs. P (xs ! i)"
proof -
  assume "0 < length (filter P xs)"
  then have "filter P xs \<noteq> []" by simp
  then obtain x where "x \<in> set xs" "P x" by (auto simp: filter_empty_conv)
  then show ?thesis by (auto simp: in_set_conv_nth)
qed

lemma progress:
  assumes inv: "invariant c s" and cap: "1 \<le> effectiveConcurrency c"
    and m: "mainpc s \<noteq> Returned"
  shows "\<exists>a. step c a s \<noteq> None"
proof -
  from inv have le: "lensOk c s" and sl: "slotsOk c s" and co: "countsOk c s"
    and ct: "controlOk c s"
    by (simp_all add: invariant_def)
  from le have lg: "length (gpcs s) = length (files c)" by (simp add: lensOk_def)
  have held: "\<exists>a. step c a s \<noteq> None" if j: "j < length (gpcs s)" and h: "holdsPermit (gpcs s ! j)" for j
  proof -
    from j h have "0 < length (filter holdsPermit (gpcs s))" by (rule filter_pos)
    with co have ne: "semaphore s \<noteq> 0" by (simp add: countsOk_def)
    from j lg h ne have "step c (Worker j) s \<noteq> None"
      by (auto simp: workerStep_def holdsPermit_def)
    then show ?thesis ..
  qed
  show ?thesis
  proof (cases "mainpc s")
    case Forking
    show ?thesis
    proof (cases "spawned s < length (files c) \<or> wg s = 0")
      case True
      with Forking have "step c MainThread s \<noteq> None" by (auto simp: mainStep_def)
      then show ?thesis ..
    next
      case False
      with co have "0 < length (filter live (gpcs s))" by (simp add: countsOk_def)
      from filter_witness [OF this]
      obtain i where i: "i < length (gpcs s)" and li: "live (gpcs s ! i)" by blast
      show ?thesis
      proof (cases "gpcs s ! i = Blocked")
        case True
        show ?thesis
        proof (cases "int (semaphore s) < effectiveConcurrency c")
          case True
          with \<open>gpcs s ! i = Blocked\<close> i lg have "step c (Worker i) s \<noteq> None"
            by (simp add: workerStep_def)
          then show ?thesis ..
        next
          case False
          with cap have "semaphore s \<noteq> 0" by auto
          with co have "0 < length (filter holdsPermit (gpcs s))"
            by (simp add: countsOk_def)
          from filter_witness [OF this]
          obtain j where "j < length (gpcs s)" "holdsPermit (gpcs s ! j)" by blast
          then show ?thesis by (rule held)
        qed
      next
        case False
        show ?thesis
        proof (cases "holdsPermit (gpcs s ! i)")
          case True
          with i show ?thesis by (rule held)
        next
          case nh: False
          with False li have "gpcs s ! i = Released"
            by (cases "gpcs s ! i") (simp_all add: live_def holdsPermit_def)
          with i lg have "step c (Worker i) s \<noteq> None" by (simp add: workerStep_def)
          then show ?thesis ..
        qed
      qed
    qed
  next
    case Joining
    show ?thesis
    proof (cases "ticker s = Polling")
      case True
      with ct Joining have "step c ProgressStop s \<noteq> None"
        by (simp add: stopStep_def controlOk_def)
      then show ?thesis ..
    next
      case False
      with Joining have "step c MainThread s \<noteq> None" by (simp add: mainStep_def)
      then show ?thesis ..
    qed
  next
    case Returned
    with m show ?thesis by simp
  qed
qed

section \<open>Order, completeness, isolation and the concurrency bound\<close>

lemma demo_busy:
  "\<exists>s. processFiles demoConfig (take 5 demoSchedule) = Some s
     \<and> gpcs s = [Blocked, InFlight, InFlight] \<and> semaphore s = 2"
  by (simp add: processFiles_def startProcessFiles_def demoSchedule_def demo_config
      mainStep_def workerStep_def)

text \<open>
  Claim C1. Whatever the files, the adapter's outcomes and the schedule, once
  \<open>processFiles\<close> has returned the result at index \<open>i\<close> is the one produced for the \<open>i\<close>-th
  file: the error of its probe and no record when the probe failed, its record and no
  error otherwise; and two schedules that both run to the return give the same results.
\<close>

theorem order_preservation:
  assumes "processFiles c sched = Some s" and "mainpc s = Returned"
    and "processFiles c sched' = Some s'" and "mainpc s' = Returned"
  shows "length (results s) = length (files c)
     \<and> (\<forall>i < length (files c).
           results s ! i
             = (case analyzeFileWithFFProbe (lib c) (observe c i) (files c ! i) of
                  Inl err \<Rightarrow> \<lparr> Info = None, Error = Some err \<rparr>
                | Inr info \<Rightarrow> \<lparr> Info = Some info, Error = None \<rparr>))
     \<and> results s' = results s"
proof -
  have r: "results s = map (probeResult c) [0 ..< length (files c)]"
    using assms(1,2) by (rule returned_results)
  have r': "results s' = map (probeResult c) [0 ..< length (files c)]"
    using assms(3,4) by (rule returned_results)
  show ?thesis by (simp add: r r' probeResult_def toResult_def)
qed

theorem order_preservation_witness:
  "processFiles demoConfig demoSchedule = Some demoFinal
   \<and> mainpc demoFinal = Returned
   \<and> map_option mainpc (processFiles demoConfig (sequentialSchedule demoConfig)) = Some Returned
   \<and> length (results demoFinal) = 3
   \<and> results demoFinal ! 0
       = \<lparr> Info = Some (demoInfo ''/music/a.mp3'' ''a''), Error = None \<rparr>
   \<and> results demoFinal ! 1
       = \<lparr> Info = None, Error = Some (FileNotFound ''no such file or directory'') \<rparr>
   \<and> results demoFinal ! 2
       = \<lparr> Info = Some (demoInfo ''/music/c.wav'' ''c''), Error = None \<rparr>
   \<and> map_option results (processFiles demoConfig (sequentialSchedule demoConfig))
       = Some (results demoFinal)"
proof -
  from demo_run obtain s where p: "processFiles demoConfig demoSchedule = Some s"
    and m: "mainpc s = Returned" by blast
  from demo_sequential obtain s' where
    p': "processFiles demoConfig (sequentialSchedule demoConfig) = Some s'"
    and m': "mainpc s' = Returned" by blast
  from p have f: "demoFinal = s" by (simp add: demoFinal_def)
  note th = order_preservation [OF p m p' m']
  from th have len: "length (results s) = 3" by (simp add: demo_config)
  from th have n: "\<And>i. i < 3 \<Longrightarrow> results s ! i
      = (case analyzeFileWithFFProbe demoLib (demoObserve i)
          ([''/music/a.mp3'', ''/music/b.flac'', ''/music/c.wav''] ! i) of
           Inl err \<Rightarrow> \<lparr> Info = None, Error = Some err \<rparr>
         | Inr info \<Rightarrow> \<lparr> Info = Some info, Error = None \<rparr>)"
    by (simp add: demo_config)
  have r0: "results s ! 0 = \<lparr> Info = Some (demoInfo ''/music/a.mp3'' ''a''), Error = None \<rparr>"
    using n [of 0] demo_analyze [of 0 "''/music/a.mp3''"] by (simp add: demo_title)
  have r1: "results s ! 1
      = \<lparr> Info = None, Error = Some (FileNotFound ''no such file or directory'') \<rparr>"
    using n [of 1] by (simp add: demo_analyze_fail)
  have r2: "results s ! 2 = \<lparr> Info = Some (demoInfo ''/music/c.wav'' ''c''), Error = None \<rparr>"
    using n [of 2] demo_analyze [of 2 "''/music/c.wav''"] by (simp add: demo_title)
  from th have eq: "results s' = results s" by simp
  from p m p' m' len r0 r1 r2 eq show ?thesis unfolding f by simp
qed

text \<open>
  Claim C2. \<open>results\<close> is allocated with one zero slot per input item before any worker
  is started; its length never changes; no slot is ever written more than once; and when
  \<open>processFiles\<close> has returned every slot has been written exactly once, by the index
  write of line 263, and holds a value other than the zero value.
\<close>

theorem slots_written_once:
  assumes "startProcessFiles c = Inr s0" and "exec c sched s0 = Some s"
  shows "results s0 = replicate (length (files c)) zeroResult
       \<and> writes s0 = replicate (length (files c)) 0
       \<and> gpcs s0 = replicate (length (files c)) NotStarted
       \<and> length (results s) = length (files c)
       \<and> (\<forall>i < length (files c). writes s ! i \<le> 1)
       \<and> (mainpc s = Returned \<longrightarrow>
            writes s = replicate (length (files c)) 1
            \<and> (\<forall>i < length (files c). results s ! i \<noteq> zeroResult))"
proof -
  from assms(1) have a: "results s0 = replicate (length (files c)) zeroResult
       \<and> writes s0 = replicate (length (files c)) 0
       \<and> gpcs s0 = replicate (length (files c)) NotStarted"
    by (auto simp: startProcessFiles_def split: if_splits)
  have inv: "invariant c s"
    using start_invariant [OF assms(1)] assms(2) by (rule exec_invariant)
  then have l: "length (results s) = length (files c)" by (simp add: invariant_def lensOk_def)
  have w: "\<forall>i < length (files c). writes s ! i \<le> 1"
    using writes_le_one [OF inv] by blast
  have f: "mainpc s = Returned \<longrightarrow>
            writes s = replicate (length (files c)) 1
            \<and> (\<forall>i < length (files c). results s ! i \<noteq> zeroResult)"
  proof
    assume "mainpc s = Returned"
    then have m: "mainpc s \<noteq> Forking" by simp
    from joined_results [OF inv m]
    show "writes s = replicate (length (files c)) 1
            \<and> (\<forall>i < length (files c). results s ! i \<noteq> zeroResult)"
      by (simp add: probeResult_def toResult_not_zero)
  qed
  from a l w f show ?thesis by blast
qed

theorem slots_written_once_witness:
  "startProcessFiles demoConfig = Inr demoStart
   \<and> exec demoConfig demoSchedule demoStart = Some demoFinal
   \<and> results demoStart = [zeroResult, zeroResult, zeroResult]
   \<and> gpcs demoStart = [NotStarted, NotStarted, NotStarted]
   \<and> length (results demoFinal) = 3
   \<and> mainpc demoFinal = Returned
   \<and> writes demoFinal = [1, 1, 1]
   \<and> results demoFinal ! 1 \<noteq> zeroResult"
proof -
  have s0: "startProcessFiles demoConfig = Inr demoStart"
    by (simp add: demoStart_def startProcessFiles_def demo_config)
  from demo_run obtain s where p: "processFiles demoConfig demoSchedule = Some s"
    and m: "mainpc s = Returned" by blast
  from p have f: "demoFinal = s" by (simp add: demoFinal_def)
  from p s0 have ex: "exec demoConfig demoSchedule demoStart = Some s"
    by (simp add: processFiles_def)
  note th = slots_written_once [OF s0 ex]
  from th have a: "results demoStart = [zeroResult, zeroResult, zeroResult]"
    and b: "gpcs demoStart = [NotStarted, NotStarted, NotStarted]"
    and l: "length (results s) = 3"
    by (simp_all add: demo_config)
  from th m have w: "writes s = [1, 1, 1]"
    and nz: "\<forall>i<3. results s ! i \<noteq> zeroResult"
    by (simp_all add: demo_config)
  from nz have nz1: "results s ! 1 \<noteq> zeroResult" by simp
  from s0 ex a b l m w nz1 show ?thesis unfolding f by (intro conjI)
qed

text \<open>
  Claim C3. When \<open>processFiles\<close> has returned, the slot of every item whose probe failed
  holds that failure (no record, the error), the slot of every other item holds its
  record, the closing loop counts exactly the failed items as failures and logs both
  counts, and the same schedule runs to the return under any other outcomes of the
  adapter (a failure stops no goroutine).
\<close>

theorem failure_isolation:
  assumes "processFiles c sched = Some s" and "mainpc s = Returned"
  shows "(\<forall>i < length (files c). \<forall>e. outcome c i = Inl e \<longrightarrow>
            results s ! i = \<lparr> Info = None, Error = Some e \<rparr>)
       \<and> (\<forall>i < length (files c). \<forall>info. outcome c i = Inr info \<longrightarrow>
            results s ! i = \<lparr> Info = Some info, Error = None \<rparr>)
       \<and> countResults (results s) (0, 0)
            = (length (rights (outcomes c)), length (lefts (outcomes c)))
       \<and> length (rights (outcomes c)) + length (lefts (outcomes c)) = length (files c)
       \<and> Succeeded (length (rights (outcomes c))) \<in> set (logs s)
       \<and> (0 < length (lefts (outcomes c)) \<longrightarrow>
            Failed (length (lefts (outcomes c))) \<in> set (logs s))
       \<and> (\<forall>c'. sameShape c c' \<longrightarrow>
            (\<exists>s'. processFiles c' sched = Some s' \<and> mainpc s' = Returned))"
proof -
  have r: "results s = map toResult (outcomes c)"
    using returned_results [OF assms] by (simp add: results_outcomes outcomes_def)
  have n: "\<forall>i < length (files c). results s ! i = toResult (outcome c i)"
    by (simp add: r outcomes_def)
  have a: "\<forall>i < length (files c). \<forall>e. outcome c i = Inl e \<longrightarrow>
            results s ! i = \<lparr> Info = None, Error = Some e \<rparr>"
    using n by (simp add: toResult_simps)
  have b: "\<forall>i < length (files c). \<forall>info. outcome c i = Inr info \<longrightarrow>
            results s ! i = \<lparr> Info = Some info, Error = None \<rparr>"
    using n by (simp add: toResult_simps)
  have cnt: "countResults (results s) (0, 0)
            = (length (rights (outcomes c)), length (lefts (outcomes c)))"
    by (simp add: r countResults_acc)
  have tot: "length (rights (outcomes c)) + length (lefts (outcomes c)) = length (files c)"
    by (simp add: length_rights_lefts outcomes_def)
  from processFiles_logsOk [OF assms(1)] assms(2)
  obtain pre where lg: "logs s = pre @ closingLogs (results s)" by (auto simp: logsOk_def)
  have su: "Succeeded (length (rights (outcomes c))) \<in> set (logs s)"
    by (simp add: lg closingLogs_def cnt)
  have fl: "0 < length (lefts (outcomes c)) \<longrightarrow>
            Failed (length (lefts (outcomes c))) \<in> set (logs s)"
    by (simp add: lg closingLogs_def cnt)
  have ind: "\<forall>c'. sameShape c c' \<longrightarrow>
            (\<exists>s'. processFiles c' sched = Some s' \<and> mainpc s' = Returned)"
  proof (intro allI impI)
    fix c' :: "'a config"
    assume "sameShape c c'"
    from processFiles_sameControl [OF this assms(1)]
    obtain s' where "processFiles c' sched = Some s'" and "sameControl s s'" by blast
    with assms(2) show "\<exists>s'. processFiles c' sched = Some s' \<and> mainpc s' = Returned"
      by (auto simp: sameControl_def)
  qed
  from a b cnt tot su fl ind show ?thesis by (intro conjI)
qed

theorem failure_isolation_witness:
  "processFiles demoConfig demoSchedule = Some demoFinal
   \<and> mainpc demoFinal = Returned
   \<and> outcome demoConfig 1 = Inl (FileNotFound ''no such file or directory'')
   \<and> results demoFinal ! 1
       = \<lparr> Info = None, Error = Some (FileNotFound ''no such file or directory'') \<rparr>
   \<and> outcome demoConfig 2 = Inr (demoInfo ''/music/c.wav'' ''c'')
   \<and> results demoFinal ! 2 = \<lparr> Info = Some (demoInfo ''/music/c.wav'' ''c''), Error = None \<rparr>
   \<and> countResults (results demoFinal) (0, 0) = (2, 1)
   \<and> Succeeded 2 \<in> set (logs demoFinal)
   \<and> Failed 1 \<in> set (logs demoFinal)
   \<and> sameShape demoConfig demoAllFail
   \<and> map_option mainpc (processFiles demoAllFail demoSchedule) = Some Returned"
proof -
  from demo_run obtain s where p: "processFiles demoConfig demoSchedule = Some s"
    and m: "mainpc s = Returned" by blast
  from p have f: "demoFinal = s" by (simp add: demoFinal_def)
  have o0: "outcome demoConfig 0 = Inr (demoInfo ''/music/a.mp3'' ''a'')"
    using demo_analyze [of 0 "''/music/a.mp3''"]
    by (simp add: outcome_def demo_config demo_title)
  have o1: "outcome demoConfig 1 = Inl (FileNotFound ''no such file or directory'')"
    by (simp add: outcome_def demo_config demo_analyze_fail)
  have o2: "outcome demoConfig 2 = Inr (demoInfo ''/music/c.wav'' ''c'')"
    using demo_analyze [of 2 "''/music/c.wav''"]
    by (simp add: outcome_def demo_config demo_title)
  have "[0 ..< length (files demoConfig)] = [0, 1, 2]"
    by (simp add: demo_config upt_rec)
  then have os: "outcomes demoConfig
      = [Inr (demoInfo ''/music/a.mp3'' ''a''), Inl (FileNotFound ''no such file or directory''),
         Inr (demoInfo ''/music/c.wav'' ''c'')]"
    using o1 by (simp add: outcomes_def o0 o2)
  have sh: "sameShape demoConfig demoAllFail"
    by (simp add: sameShape_def demoAllFail_def effectiveConcurrency_def cpuLimit_def)
  note th = failure_isolation [OF p m]
  from th o1 have r1: "results s ! 1
       = \<lparr> Info = None, Error = Some (FileNotFound ''no such file or directory'') \<rparr>"
    by (simp add: demo_config)
  from th o2 have r2: "results s ! 2
       = \<lparr> Info = Some (demoInfo ''/music/c.wav'' ''c''), Error = None \<rparr>"
    by (simp add: demo_config)
  from th have cnt: "countResults (results s) (0, 0) = (2, 1)" by (simp add: os)
  from th have su: "Succeeded 2 \<in> set (logs s)" by (simp add: os numeral_2_eq_2)
  from th have fl: "Failed 1 \<in> set (logs s)" by (simp add: os)
  from th sh obtain s' where "processFiles demoAllFail demoSchedule = Some s'"
    and "mainpc s' = Returned" by blast
  then have af: "map_option mainpc (processFiles demoAllFail demoSchedule) = Some Returned"
    by simp
  from p m o1 r1 o2 r2 cnt su fl sh af show ?thesis unfolding f by (intro conjI)
qed

text \<open>
  Claim C7. In every state a run of \<open>processFiles\<close> reaches, the calls of the adapter in
  flight are at most the permits held, the permits held are the elements buffered in the
  channel, and these are at most the effective concurrency; a worker waiting to send is
  blocked while the channel is full.
\<close>

theorem concurrency_bound:
  assumes "processFiles c sched = Some s"
  shows "int (inFlight s) \<le> effectiveConcurrency c
       \<and> inFlight s \<le> semaphore s
       \<and> semaphore s = length (filter holdsPermit (gpcs s))
       \<and> int (semaphore s) \<le> effectiveConcurrency c
       \<and> (\<forall>i. gpcs s ! i = Blocked \<and> int (semaphore s) = effectiveConcurrency c \<longrightarrow>
             step c (Worker i) s = None)"
proof -
  from assms have eff: "0 \<le> effectiveConcurrency c"
    by (auto simp: processFiles_def startProcessFiles_def split: sum.splits if_splits)
  from processFiles_invariant [OF assms] have co: "countsOk c s" by (simp add: invariant_def)
  then have sem: "semaphore s = length (filter holdsPermit (gpcs s))"
    and b: "int (semaphore s) \<le> effectiveConcurrency c"
    using eff by (auto simp: countsOk_def)
  have "inFlight s \<le> length (filter holdsPermit (gpcs s))"
    unfolding inFlight_def by (rule filter_le_mono) (simp add: holdsPermit_def)
  with sem have fl: "inFlight s \<le> semaphore s" by simp
  with b have fb: "int (inFlight s) \<le> effectiveConcurrency c" by linarith
  have blk: "\<forall>i. gpcs s ! i = Blocked \<and> int (semaphore s) = effectiveConcurrency c \<longrightarrow>
             step c (Worker i) s = None"
    by (simp add: workerStep_def)
  from fb fl sem b blk show ?thesis by blast
qed

theorem concurrency_bound_witness:
  "processFiles demoConfig (take 5 demoSchedule) = Some demoBusy
   \<and> effectiveConcurrency demoConfig = 2
   \<and> inFlight demoBusy = 2
   \<and> semaphore demoBusy = 2
   \<and> gpcs demoBusy ! 0 = Blocked
   \<and> step demoConfig (Worker 0) demoBusy = None"
proof -
  from demo_busy obtain s where p: "processFiles demoConfig (take 5 demoSchedule) = Some s"
    and g: "gpcs s = [Blocked, InFlight, InFlight]" and sm: "semaphore s = 2" by blast
  from p have f: "demoBusy = s" by (simp add: demoBusy_def)
  from g have fl: "inFlight s = 2" by (simp add: inFlight_def)
  from g have b: "gpcs s ! 0 = Blocked" by simp
  note th = concurrency_bound [OF p]
  from th b sm have st: "step demoConfig (Worker 0) s = None"
    by (simp add: demo_config)
  from p fl sm b st show ?thesis unfolding f by (simp add: demo_config)
qed

section \<open>A run that returns, and the progress counter\<close>

lemma round_idle:
  assumes cap: "1 \<le> effectiveConcurrency c" and id: "idle c k s" and k: "k < length (files c)"
  shows "\<exists>s'. exec c (workerRound k) s = Some s' \<and> idle c (Suc k) s'"
proof -
  from id have inv: "invariant c s" and sp: "spawned s = k" and mp: "mainpc s = Forking"
    and w: "wg s = 0" and sm: "semaphore s = 0" and pr: "processed s = of_nat k"
    by (simp_all add: idle_def)
  from inv k have kg: "k < length (gpcs s)" by (simp add: invariant_def lensOk_def)
  from cap have cp: "0 < effectiveConcurrency c" by simp
  have "\<exists>s'. exec c (workerRound k) s = Some s' \<and> spawned s' = Suc k \<and> mainpc s' = Forking
          \<and> wg s' = 0 \<and> semaphore s' = 0 \<and> processed s' = processed s + 1"
    using k kg sp mp w sm cp
    by (simp add: workerRound_def mainStep_def workerStep_def)
  then obtain s' where ex: "exec c (workerRound k) s = Some s'" and f: "spawned s' = Suc k"
    "mainpc s' = Forking" "wg s' = 0" "semaphore s' = 0" "processed s' = processed s + 1"
    by blast
  from inv ex have "invariant c s'" by (rule exec_invariant)
  with f pr have "idle c (Suc k) s'" by (simp add: idle_def)
  with ex show ?thesis by blast
qed

lemma rounds_idle:
  assumes cap: "1 \<le> effectiveConcurrency c" and id: "idle c 0 s0"
  shows "k \<le> length (files c) \<Longrightarrow>
    \<exists>s. exec c (concat (map workerRound [0 ..< k])) s0 = Some s \<and> idle c k s"
proof (induction k)
  case 0
  with id show ?case by simp
next
  case (Suc k)
  then obtain s where ex: "exec c (concat (map workerRound [0 ..< k])) s0 = Some s"
    and i: "idle c k s" by auto
  from Suc.prems have "k < length (files c)" by simp
  from round_idle [OF cap i this]
  obtain s' where "exec c (workerRound k) s = Some s'" and "idle c (Suc k) s'" by blast
  with ex show ?case by (simp add: exec_append)
qed

lemma sequential_returns:
  assumes cap: "1 \<le> effectiveConcurrency c"
  shows "\<exists>s. processFiles c (sequentialSchedule c) = Some s \<and> mainpc s = Returned
           \<and> processed s = of_nat (length (files c))"
proof -
  from cap obtain s0 where s0: "startProcessFiles c = Inr s0"
    by (simp add: startProcessFiles_def)
  from s0 have inv0: "invariant c s0" by (rule start_invariant)
  from s0 have "spawned s0 = 0 \<and> mainpc s0 = Forking \<and> wg s0 = 0 \<and> semaphore s0 = 0
      \<and> processed s0 = 0"
    by (auto simp: startProcessFiles_def split: if_splits)
  with inv0 have "idle c 0 s0" by (simp add: idle_def)
  from rounds_idle [OF cap this, of "length (files c)"]
  obtain s1 where e1: "exec c (concat (map workerRound [0 ..< length (files c)])) s0 = Some s1"
    and i1: "idle c (length (files c)) s1" by auto
  from i1 have inv1: "invariant c s1" and f1: "spawned s1 = length (files c)"
    "mainpc s1 = Forking" "wg s1 = 0" "processed s1 = of_nat (length (files c))"
    by (simp_all add: idle_def)
  from inv1 have ct: "controlOk c s1" by (simp add: invariant_def)
  with f1 have tk: "ticker s1 = (if quiet c then Absent else Polling)"
    by (cases "ticker s1") (auto simp: controlOk_def)
  have "\<exists>s. exec c ([MainThread] @ (if quiet c then [] else [ProgressStop]) @ [MainThread]) s1
          = Some s \<and> mainpc s = Returned \<and> processed s = processed s1"
    using f1 tk by (simp add: mainStep_def stopStep_def)
  then obtain s where e2:
    "exec c ([MainThread] @ (if quiet c then [] else [ProgressStop]) @ [MainThread]) s1 = Some s"
    and r: "mainpc s = Returned" and p: "processed s = processed s1" by blast
  from e1 e2 have "exec c (sequentialSchedule c) s0 = Some s"
    unfolding sequentialSchedule_def by (simp add: exec_append)
  with s0 have "processFiles c (sequentialSchedule c) = Some s" by (simp add: processFiles_def)
  with r p f1 show ?thesis by simp
qed

lemma sint_of_nat_small:
  assumes "k < 2 ^ 31"
  shows "sint (of_nat k :: 32 word) = int k"
proof -
  from assms have "int k < 2 ^ 31" by (simp add: of_nat_less_iff [of k "2 ^ 31", simplified])
  then have "signed_take_bit 31 (int k) = int k"
    by (intro signed_take_bit_int_eq_self) simp_all
  then show ?thesis by (simp add: signed_of_nat)
qed

lemma step_counted_mono:
  assumes inv: "invariant c s" and st: "step c a s = Some t"
  shows "length (filter counted (gpcs s)) \<le> length (filter counted (gpcs t))
       \<and> (processed t = processed s
            \<or> (processed t = processed s + 1
                \<and> (\<exists>i. a = Worker i \<and> gpcs s ! i = Stored \<and> gpcs t ! i = Counted)))"
proof (cases a)
  case MainThread
  with st have ms: "mainStep c s = Some t" by simp
  from inv have sl: "slotsOk c s" and lg: "length (gpcs s) = length (files c)"
    by (simp_all add: invariant_def lensOk_def)
  show ?thesis
  proof (cases "mainpc s = Forking \<and> spawned s < length (files c)")
    case True
    with ms have t: "t = s\<lparr> wg := wg s + 1,
                        gpcs := (gpcs s)[spawned s := Blocked],
                        spawned := spawned s + 1 \<rparr>"
      by (simp add: mainStep_def)
    from sl True have "gpcs s ! spawned s = NotStarted" by (simp add: slotsOk_def)
    with True lg show ?thesis by (simp add: t filter_update_same counted_def)
  next
    case False
    with ms have "gpcs t = gpcs s \<and> processed t = processed s"
      by (cases "mainpc s") (auto simp: mainStep_def split: if_splits)
    then show ?thesis by simp
  qed
next
  case (Worker i)
  with st have ws: "workerStep c i s = Some t" by simp
  then have i: "i < length (files c)" by (simp add: workerStep_def split: if_splits)
  with inv have ig: "i < length (gpcs s)" by (simp add: invariant_def lensOk_def)
  show ?thesis
  proof (cases "gpcs s ! i")
    case NotStarted
    with ws i show ?thesis by (simp add: workerStep_def)
  next
    case Blocked
    with ws i ig Worker show ?thesis
      by (auto simp: workerStep_def filter_update_same counted_def split: if_splits)
  next
    case InFlight
    with ws i ig Worker show ?thesis
      by (auto simp: workerStep_def filter_update_same counted_def split: if_splits)
  next
    case Stored
    with ws i ig Worker show ?thesis
      by (auto simp: workerStep_def filter_update_gain counted_def split: if_splits)
  next
    case Counted
    with ws i ig Worker show ?thesis
      by (auto simp: workerStep_def filter_update_same counted_def split: if_splits)
  next
    case Released
    with ws i ig Worker show ?thesis
      by (auto simp: workerStep_def filter_update_same counted_def split: if_splits)
  next
    case Exited
    with ws i show ?thesis by (simp add: workerStep_def)
  qed
next
  case ProgressTick
  with st show ?thesis by (auto simp: tickStep_def split: if_splits)
next
  case ProgressStop
  with st show ?thesis by (auto simp: stopStep_def split: if_splits)
qed

lemma exec_counted_mono:
  "invariant c s \<Longrightarrow> exec c sched s = Some t \<Longrightarrow>
     length (filter counted (gpcs s)) \<le> length (filter counted (gpcs t))"
proof (induction sched arbitrary: s)
  case Nil
  then show ?case by simp
next
  case (Cons a sched)
  from Cons.prems(2) obtain s1 where s1: "step c a s = Some s1" and r: "exec c sched s1 = Some t"
    by (auto split: option.splits)
  from Cons.prems(1) s1 have i1: "invariant c s1" by (rule step_invariant)
  from step_counted_mono [OF Cons.prems(1) s1] Cons.IH [OF i1 r] show ?case by simp
qed

lemma step_shownOk:
  assumes inv: "invariant c s" and sh: "shownOk s" and st: "step c a s = Some t"
  shows "shownOk t"
proof -
  from sh obtain ks where ks: "shown s = map of_nat ks" "sorted ks"
    "\<forall>k \<in> set ks. k \<le> length (filter counted (gpcs s))"
    by (auto simp: shownOk_def)
  from step_counted_mono [OF inv st]
  have mono: "length (filter counted (gpcs s)) \<le> length (filter counted (gpcs t))" by simp
  show ?thesis
  proof (cases "a = ProgressTick")
    case True
    with st have t: "t = s\<lparr> shown := shown s @ [processed s] \<rparr>"
      by (auto simp: tickStep_def split: if_splits)
    from inv have p: "processed s = of_nat (length (filter counted (gpcs s)))"
      by (simp add: invariant_def countsOk_def)
    have "shown t = map of_nat (ks @ [length (filter counted (gpcs s))])"
      by (simp add: t ks p)
    moreover have "sorted (ks @ [length (filter counted (gpcs s))])"
      using ks by (simp add: sorted_append)
    moreover have "\<forall>k \<in> set (ks @ [length (filter counted (gpcs s))]).
        k \<le> length (filter counted (gpcs t))"
      using ks by (simp add: t)
    ultimately show ?thesis unfolding shownOk_def by blast
  next
    case False
    with st have "shown t = shown s"
      by (cases a)
        (auto simp: mainStep_def workerStep_def stopStep_def split: if_splits mpc.splits gpc.splits)
    with ks mono show ?thesis unfolding shownOk_def by fastforce
  qed
qed

lemma exec_shownOk:
  "invariant c s \<Longrightarrow> shownOk s \<Longrightarrow> exec c sched s = Some t \<Longrightarrow> shownOk t"
proof (induction sched arbitrary: s)
  case Nil
  then show ?case by simp
next
  case (Cons a sched)
  from Cons.prems(3) obtain s1 where s1: "step c a s = Some s1" and r: "exec c sched s1 = Some t"
    by (auto split: option.splits)
  from Cons.prems(1) s1 have i1: "invariant c s1" by (rule step_invariant)
  from Cons.prems(1,2) s1 have "shownOk s1" by (rule step_shownOk)
  with i1 show ?case using r by (rule Cons.IH)
qed

lemma shown_sorted:
  assumes sh: "shownOk s" and inv: "invariant c s" and n: "length (files c) < 2 ^ 31"
  shows "sorted (map sint (shown s))"
proof -
  from sh obtain ks where ks: "shown s = map of_nat ks" "sorted ks"
    "\<forall>k \<in> set ks. k \<le> length (filter counted (gpcs s))"
    by (auto simp: shownOk_def)
  from inv have "length (gpcs s) = length (files c)" by (simp add: invariant_def lensOk_def)
  then have "length (filter counted (gpcs s)) \<le> length (files c)"
    using length_filter_le [of counted "gpcs s"] by simp
  with ks n have small: "\<forall>k \<in> set ks. k < 2 ^ 31" by fastforce
  then have "map sint (shown s) = map int ks"
    by (simp add: ks sint_of_nat_small)
  moreover from ks have "sorted (map int ks)"
    by (simp add: sorted_map sorted_wrt_mono_rel [of ks "(\<le>)"])
  ultimately show ?thesis by simp
qed

section \<open>The concurrency ceiling and the progress counter\<close>

text \<open>
  Claim C5. With at least one CPU, a requested concurrency above 12 times the CPU count
  is replaced by that ceiling, a warning naming both values is logged, \<open>make\<close> does not
  panic, the run can return and no reachable state short of the return is stuck; a
  requested concurrency at or below the ceiling is used as it is, without a warning.
\<close>

theorem concurrency_clamp:
  assumes "1 \<le> numCPU c"
  shows "(cpuLimit c < maxConcurrency c \<longrightarrow>
            effectiveConcurrency c = 12 * numCPU c
            \<and> (\<exists>s0. startProcessFiles c = Inr s0
                   \<and> Warning (maxConcurrency c) (12 * numCPU c) \<in> set (logs s0)
                   \<and> Processing (length (files c)) (12 * numCPU c) \<in> set (logs s0))
            \<and> (\<exists>s. processFiles c (sequentialSchedule c) = Some s \<and> mainpc s = Returned)
            \<and> (\<forall>sched s. processFiles c sched = Some s \<and> mainpc s \<noteq> Returned \<longrightarrow>
                   (\<exists>a. step c a s \<noteq> None)))
       \<and> (maxConcurrency c \<le> cpuLimit c \<longrightarrow>
            effectiveConcurrency c = maxConcurrency c
            \<and> (\<forall>s0. startProcessFiles c = Inr s0 \<longrightarrow>
                 (\<forall>a b. Warning a b \<notin> set (logs s0))
                 \<and> Processing (length (files c)) (maxConcurrency c) \<in> set (logs s0)))
       \<and> cpuLimit c = 12 * numCPU c"
proof -
  have lim: "cpuLimit c = 12 * numCPU c" by (simp add: cpuLimit_def)
  have over: "cpuLimit c < maxConcurrency c \<longrightarrow>
            effectiveConcurrency c = 12 * numCPU c
            \<and> (\<exists>s0. startProcessFiles c = Inr s0
                   \<and> Warning (maxConcurrency c) (12 * numCPU c) \<in> set (logs s0)
                   \<and> Processing (length (files c)) (12 * numCPU c) \<in> set (logs s0))
            \<and> (\<exists>s. processFiles c (sequentialSchedule c) = Some s \<and> mainpc s = Returned)
            \<and> (\<forall>sched s. processFiles c sched = Some s \<and> mainpc s \<noteq> Returned \<longrightarrow>
                   (\<exists>a. step c a s \<noteq> None))"
  proof
    assume gt: "cpuLimit c < maxConcurrency c"
    then have eff: "effectiveConcurrency c = 12 * numCPU c"
      by (simp add: effectiveConcurrency_def lim)
    with assms have cap: "1 \<le> effectiveConcurrency c" by simp
    have st: "\<exists>s0. startProcessFiles c = Inr s0
                   \<and> Warning (maxConcurrency c) (12 * numCPU c) \<in> set (logs s0)
                   \<and> Processing (length (files c)) (12 * numCPU c) \<in> set (logs s0)"
      using gt cap eff by (simp add: startProcessFiles_def lim)
    from sequential_returns [OF cap]
    have ret: "\<exists>s. processFiles c (sequentialSchedule c) = Some s \<and> mainpc s = Returned"
      by blast
    have live: "\<forall>sched s. processFiles c sched = Some s \<and> mainpc s \<noteq> Returned \<longrightarrow>
                   (\<exists>a. step c a s \<noteq> None)"
    proof (intro allI impI)
      fix sched and s :: "'a state"
      assume a: "processFiles c sched = Some s \<and> mainpc s \<noteq> Returned"
      then have "processFiles c sched = Some s" ..
      then have "invariant c s" by (rule processFiles_invariant)
      moreover from a have "mainpc s \<noteq> Returned" ..
      ultimately show "\<exists>a. step c a s \<noteq> None" using cap by (intro progress)
    qed
    from eff st ret live show "effectiveConcurrency c = 12 * numCPU c
            \<and> (\<exists>s0. startProcessFiles c = Inr s0
                   \<and> Warning (maxConcurrency c) (12 * numCPU c) \<in> set (logs s0)
                   \<and> Processing (length (files c)) (12 * numCPU c) \<in> set (logs s0))
            \<and> (\<exists>s. processFiles c (sequentialSchedule c) = Some s \<and> mainpc s = Returned)
            \<and> (\<forall>sched s. processFiles c sched = Some s \<and> mainpc s \<noteq> Returned \<longrightarrow>
                   (\<exists>a. step c a s \<noteq> None))"
      by (intro conjI)
  qed
  have under: "maxConcurrency c \<le> cpuLimit c \<longrightarrow>
            effectiveConcurrency c = maxConcurrency c
            \<and> (\<forall>s0. startProcessFiles c = Inr s0 \<longrightarrow>
                 (\<forall>a b. Warning a b \<notin> set (logs s0))
                 \<and> Processing (length (files c)) (maxConcurrency c) \<in> set (logs s0))"
    by (auto simp: effectiveConcurrency_def startProcessFiles_def split: if_splits)
  from over under lim show ?thesis by (intro conjI)
qed

lemma demo_greedy:
  "numCPU demoGreedy = 4" "maxConcurrency demoGreedy = 100" "cpuLimit demoGreedy = 48"
  "length (files demoGreedy) = 3"
  by (simp_all add: demoGreedy_def demoConfig_def cpuLimit_def)

theorem concurrency_clamp_witness:
  "1 \<le> numCPU demoGreedy
   \<and> cpuLimit demoGreedy < maxConcurrency demoGreedy
   \<and> maxConcurrency demoGreedy = 100
   \<and> effectiveConcurrency demoGreedy = 48
   \<and> (\<exists>s0. startProcessFiles demoGreedy = Inr s0 \<and> Warning 100 48 \<in> set (logs s0)
             \<and> Processing 3 48 \<in> set (logs s0))
   \<and> (\<exists>s. processFiles demoGreedy (sequentialSchedule demoGreedy) = Some s
            \<and> mainpc s = Returned)
   \<and> 1 \<le> numCPU demoConfig
   \<and> maxConcurrency demoConfig \<le> cpuLimit demoConfig
   \<and> effectiveConcurrency demoConfig = 2
   \<and> startProcessFiles demoConfig = Inr demoStart
   \<and> Processing 3 2 \<in> set (logs demoStart)
   \<and> Warning 2 48 \<notin> set (logs demoStart)"
proof -
  have g1: "1 \<le> numCPU demoGreedy" by (simp add: demo_greedy)
  have g2: "cpuLimit demoGreedy < maxConcurrency demoGreedy" by (simp add: demo_greedy)
  note tg = concurrency_clamp [OF g1]
  from tg g2 have a: "effectiveConcurrency demoGreedy = 48" by (simp add: demo_greedy)
  from tg g2 have b: "\<exists>s0. startProcessFiles demoGreedy = Inr s0 \<and> Warning 100 48 \<in> set (logs s0)
             \<and> Processing 3 48 \<in> set (logs s0)"
    by (simp add: demo_greedy)
  from tg g2 have r: "\<exists>s. processFiles demoGreedy (sequentialSchedule demoGreedy) = Some s
            \<and> mainpc s = Returned"
    by blast
  have d1: "1 \<le> numCPU demoConfig" by (simp add: demoConfig_def)
  have d2: "maxConcurrency demoConfig \<le> cpuLimit demoConfig" by (simp add: demo_config)
  have s0: "startProcessFiles demoConfig = Inr demoStart"
    by (simp add: demoStart_def startProcessFiles_def demo_config)
  note td = concurrency_clamp [OF d1]
  from td d2 have e: "effectiveConcurrency demoConfig = 2" by (simp add: demo_config)
  from td d2 s0 have p: "Processing 3 2 \<in> set (logs demoStart)"
    by (simp add: demo_config numeral_3_eq_3)
  from td d2 s0 have w: "Warning 2 48 \<notin> set (logs demoStart)" by blast
  from g1 g2 a b r d1 d2 e s0 p w show ?thesis by (simp add: demo_greedy)
qed

text \<open>
  Claim C6, as amended. In a run over fewer than \<open>2 ^ 31\<close> files, \<open>processed\<close> starts at 0,
  is at every moment the number of workers past line 265 (each adds one, failed or not),
  changes in a step only by the addition of one by a worker at that line, never
  decreases, never exceeds the number of files, is the number of files at the return,
  and the values the progress goroutine loaded are non-decreasing.
\<close>

theorem progress_counter:
  assumes "length (files c) < 2 ^ 31"
    and "startProcessFiles c = Inr s0"
    and "exec c sched s0 = Some s"
    and "exec c sched' s = Some s'"
  shows "processed s0 = 0
       \<and> sint (processed s) = int (length (filter counted (gpcs s)))
       \<and> 0 \<le> sint (processed s)
       \<and> sint (processed s) \<le> sint (processed s')
       \<and> sint (processed s') \<le> int (length (files c))
       \<and> (\<forall>a t. step c a s = Some t \<longrightarrow>
             processed t = processed s
             \<or> (processed t = processed s + 1
                 \<and> (\<exists>i. a = Worker i \<and> gpcs s ! i = Stored \<and> gpcs t ! i = Counted)))
       \<and> sorted (map sint (shown s))
       \<and> (mainpc s = Returned \<longrightarrow> sint (processed s) = int (length (files c)))"
proof -
  from assms(2) have z: "processed s0 = 0" and sh0: "shownOk s0"
    by (auto simp: startProcessFiles_def shownOk_def split: if_splits)
  have inv0: "invariant c s0" using assms(2) by (rule start_invariant)
  have inv: "invariant c s" using inv0 assms(3) by (rule exec_invariant)
  have inv': "invariant c s'" using inv assms(4) by (rule exec_invariant)
  have bound: "length (filter counted (gpcs t)) \<le> length (files c)" if "invariant c t" for t
  proof -
    from that have "length (gpcs t) = length (files c)" by (simp add: invariant_def lensOk_def)
    then show ?thesis using length_filter_le [of counted "gpcs t"] by simp
  qed
  have val: "sint (processed t) = int (length (filter counted (gpcs t)))" if "invariant c t" for t
  proof -
    from that have "processed t = of_nat (length (filter counted (gpcs t)))"
      by (simp add: invariant_def countsOk_def)
    moreover from bound [OF that] assms(1) have "length (filter counted (gpcs t)) < 2 ^ 31"
      by simp
    ultimately show ?thesis by (simp add: sint_of_nat_small)
  qed
  have mono: "sint (processed s) \<le> sint (processed s')"
    using exec_counted_mono [OF inv assms(4)] by (simp add: val [OF inv] val [OF inv'])
  have le: "sint (processed s') \<le> int (length (files c))"
    using bound [OF inv'] by (simp add: val [OF inv'])
  have stp: "\<forall>a t. step c a s = Some t \<longrightarrow>
             processed t = processed s
             \<or> (processed t = processed s + 1
                 \<and> (\<exists>i. a = Worker i \<and> gpcs s ! i = Stored \<and> gpcs t ! i = Counted))"
    using step_counted_mono [OF inv] by blast
  have srt: "sorted (map sint (shown s))"
    using exec_shownOk [OF inv0 sh0 assms(3)] inv assms(1) by (rule shown_sorted)
  have fin: "mainpc s = Returned \<longrightarrow> sint (processed s) = int (length (files c))"
  proof
    assume "mainpc s = Returned"
    then have m: "mainpc s \<noteq> Forking" by simp
    have "filter counted (gpcs s) = gpcs s"
    proof (rule filter_True)
      show "\<forall>p \<in> set (gpcs s). counted p"
      proof
        fix p assume "p \<in> set (gpcs s)"
        then obtain i where "i < length (gpcs s)" "gpcs s ! i = p"
          by (auto simp: in_set_conv_nth)
        moreover from inv have "length (gpcs s) = length (files c)"
          by (simp add: invariant_def lensOk_def)
        ultimately show "counted p" using all_exited [OF inv m, of i] by (simp add: counted_def)
      qed
    qed
    moreover from inv have "length (gpcs s) = length (files c)"
      by (simp add: invariant_def lensOk_def)
    ultimately show "sint (processed s) = int (length (files c))" by (simp add: val [OF inv])
  qed
  from z val [OF inv] mono le stp srt fin show ?thesis by simp
qed

lemma demo_mid:
  "\<exists>m. processFiles demoConfig (take 9 demoSchedule) = Some m \<and> processed m = 1"
  by (simp add: processFiles_def startProcessFiles_def demoSchedule_def demo_config
      mainStep_def workerStep_def tickStep_def)

theorem progress_counter_witness:
  "length (files demoConfig) < 2 ^ 31
   \<and> startProcessFiles demoConfig = Inr demoStart
   \<and> exec demoConfig (take 9 demoSchedule) demoStart = Some demoMid
   \<and> exec demoConfig (drop 9 demoSchedule) demoMid = Some demoFinal
   \<and> processed demoStart = 0
   \<and> sint (processed demoMid) = 1
   \<and> sint (processed demoMid) \<le> sint (processed demoFinal)
   \<and> mainpc demoFinal = Returned
   \<and> sint (processed demoFinal) = 3
   \<and> shown demoFinal = [0, 1, 3, 3]
   \<and> sorted (map sint (shown demoFinal))"
proof -
  have n: "length (files demoConfig) < 2 ^ 31" by (simp add: demo_config)
  have s0: "startProcessFiles demoConfig = Inr demoStart"
    by (simp add: demoStart_def startProcessFiles_def demo_config)
  from demo_mid obtain m where pm: "processFiles demoConfig (take 9 demoSchedule) = Some m"
    and vm: "processed m = 1" by blast
  from pm have fm: "demoMid = m" by (simp add: demoMid_def)
  from pm s0 have em: "exec demoConfig (take 9 demoSchedule) demoStart = Some m"
    by (simp add: processFiles_def)
  from demo_run obtain s where p: "processFiles demoConfig demoSchedule = Some s"
    and r: "mainpc s = Returned" and sh: "shown s = [0, 1, 3, 3]" by blast
  from p have f: "demoFinal = s" by (simp add: demoFinal_def)
  from p s0 have "exec demoConfig (take 9 demoSchedule @ drop 9 demoSchedule) demoStart = Some s"
    by (simp add: processFiles_def)
  with em have ed: "exec demoConfig (drop 9 demoSchedule) m = Some s"
    by (simp only: exec_append option.case)
  have es: "exec demoConfig demoSchedule demoStart = Some s"
    using p s0 by (simp add: processFiles_def)
  have e0: "exec demoConfig [] s = Some s" by simp
  note t1 = progress_counter [OF n s0 em ed]
  note t2 = progress_counter [OF n s0 es e0]
  from t1 have z: "processed demoStart = 0" by simp
  from vm have v1: "sint (processed m) = 1" by simp
  from t1 have mono: "sint (processed m) \<le> sint (processed s)" by simp
  from t2 r have v3: "sint (processed s) = 3" by (simp add: demo_config)
  from t2 have srt: "sorted (map sint (shown s))" by simp
  from n s0 em ed z v1 mono r v3 sh srt show ?thesis unfolding f fm by (intro conjI)
qed

text \<open>\<open>processed\<close> is an \<open>int32\<close>: after \<open>2 ^ 31\<close> additions it is \<open>- 2 ^ 31\<close>, not the
  number of files.\<close>

lemma demo_huge:
  "length (files demoHuge) = 2147483648" "effectiveConcurrency demoHuge = 2"
  by (simp_all add: demoHuge_def demoConfig_def effectiveConcurrency_def cpuLimit_def)

theorem progress_counter_counterexample:
  "length (files demoHuge) = 2147483648
   \<and> map_option mainpc (processFiles demoHuge (sequentialSchedule demoHuge)) = Some Returned
   \<and> map_option (\<lambda>s. sint (processed s)) (processFiles demoHuge (sequentialSchedule demoHuge))
       = Some (- 2147483648)"
proof -
  have "1 \<le> effectiveConcurrency demoHuge" by (simp add: demo_huge)
  from sequential_returns [OF this]
  obtain s where p: "processFiles demoHuge (sequentialSchedule demoHuge) = Some s"
    and r: "mainpc s = Returned" and v: "processed s = of_nat (length (files demoHuge))"
    by blast
  from v have "sint (processed s) = - 2147483648" by (simp add: demo_huge)
  with p r show ?thesis by (simp add: demo_huge)
qed

section \<open>The rendered output\<close>


lemma textEntries_toResult:
  "textEntries (map toResult xs) = Inr (map (case_sum ErrorLine FileEntry) xs)"
proof (induction xs)
  case Nil
  show ?case by simp
next
  case (Cons x xs)
  then show ?case by (cases x) (simp_all add: toResult_simps)
qed

lemma textStats_toResult:
  "textStats (map toResult xs) (td, ts, sc) =
     (foldl (+) td (map DurationSeconds (rights xs)),
      ts + sum_list (map FileSize (rights xs)),
      sc + length (rights xs))"
proof (induction xs arbitrary: td ts sc)
  case Nil
  show ?case by simp
next
  case (Cons x xs)
  show ?case by (cases x) (simp_all add: toResult_simps Cons.IH add.assoc)
qed

lemma outputText_toResult:
  "outputText (map toResult xs) =
     Inr (TextReport
       ([Header, Counts (length (rights xs)) (length (lefts xs)),
         TotalDuration (foldl (+) 0 (map DurationSeconds (rights xs))),
         TotalSize (sum_list (map FileSize (rights xs)))]
        @ map (case_sum ErrorLine FileEntry) xs))"
proof -
  have "length xs - length (rights xs) = length (lefts xs)"
    using length_rights_lefts [of xs] by simp
  then show ?thesis
    by (simp add: outputText_def textStats_toResult textEntries_toResult)
qed

lemma sint_sum_list:
  fixes ws :: "int64 list"
  assumes "\<forall>w \<in> set ws. 0 \<le> sint w" and "sum_list (map sint ws) < 2 ^ 63"
  shows "sint (sum_list ws) = sum_list (map sint ws)"
  using assms
proof (induction ws)
  case Nil
  show ?case by simp
next
  case (Cons w ws)
  from Cons.prems have w0: "0 \<le> sint w" and r0: "\<forall>v \<in> set ws. 0 \<le> sint v" by simp_all
  from r0 have nn: "0 \<le> sum_list (map sint ws)" by (intro sum_list_nonneg) auto
  with Cons.prems(2) w0 have "sum_list (map sint ws) < 2 ^ 63" by simp
  with r0 have ih: "sint (sum_list ws) = sum_list (map sint ws)" by (rule Cons.IH)
  have "sint (w + sum_list ws) = signed_take_bit 63 (sint w + sint (sum_list ws))"
    by (simp add: sint_word_ariths)
  also have "\<dots> = sint w + sum_list (map sint ws)"
    unfolding ih using w0 nn Cons.prems(2)
    by (intro signed_take_bit_int_eq_self) simp_all
  finally show ?case by simp
qed

lemma successes_toResult:
  "[the (Info r). r \<leftarrow> map toResult xs, Error r = None] = rights xs"
proof (induction xs)
  case Nil
  show ?case by simp
next
  case (Cons x xs)
  then show ?case by (cases x) (simp_all add: toResult_simps)
qed

lemma failures_toResult:
  "length [r \<leftarrow> map toResult xs. Error r \<noteq> None] = length (lefts xs)"
  by (induction xs rule: lefts.induct) (simp_all add: toResult_simps)

lemma returned_outcomes:
  assumes "processFiles c sched = Some s" and "mainpc s = Returned"
  shows "results s = map toResult (outcomes c)"
  using returned_results [OF assms] by (simp add: results_outcomes outcomes_def)

lemma demo_outcomes:
  "outcomes demoConfig
      = [Inr (demoInfo ''/music/a.mp3'' ''a''), Inl (FileNotFound ''no such file or directory''),
         Inr (demoInfo ''/music/c.wav'' ''c'')]"
proof -
  have o0: "outcome demoConfig 0 = Inr (demoInfo ''/music/a.mp3'' ''a'')"
    using demo_analyze [of 0 "''/music/a.mp3''"]
    by (simp add: outcome_def demo_config demo_title)
  have o1: "outcome demoConfig (Suc 0) = Inl (FileNotFound ''no such file or directory'')"
    by (simp add: outcome_def demo_config demo_analyze_fail)
  have o2: "outcome demoConfig 2 = Inr (demoInfo ''/music/c.wav'' ''c'')"
    using demo_analyze [of 2 "''/music/c.wav''"]
    by (simp add: outcome_def demo_config demo_title)
  have "[0 ..< length (files demoConfig)] = [0, Suc 0, 2]"
    by (simp add: demo_config upt_rec)
  then show ?thesis by (simp add: outcomes_def o0 o1 o2)
qed


text \<open>
  Claim C8, as amended. When \<open>processFiles\<close> has returned, the text report opens with the header, the
  two counts, the total duration and the total size: the counts are the numbers of
  succeeded and failed items and add up to the number of files; the records summed are
  those of the results without an error, in order; the total duration is the
  left-to-right \<open>float64\<close> sum of their durations from 0, the total size the \<open>int64\<close> sum of
  their sizes, which is the sum of the sizes as integers when these are non-negative and
  their sum is below \<open>2 ^ 63\<close>.
\<close>

theorem summary_statistics:
  assumes "processFiles c sched = Some s" and "mainpc s = Returned"
  shows "(\<exists>ls. outputText (results s) =
            Inr (TextReport
              (Header
               # Counts (length (rights (outcomes c))) (length (lefts (outcomes c)))
               # TotalDuration (foldl (+) 0 (map DurationSeconds (rights (outcomes c))))
               # TotalSize (sum_list (map FileSize (rights (outcomes c))))
               # ls)))
       \<and> length (rights (outcomes c)) + length (lefts (outcomes c)) = length (files c)
       \<and> rights (outcomes c) = [the (Info r). r \<leftarrow> results s, Error r = None]
       \<and> length (lefts (outcomes c)) = length [r \<leftarrow> results s. Error r \<noteq> None]
       \<and> ((\<forall>info \<in> set (rights (outcomes c)). 0 \<le> sint (FileSize info))
            \<and> sum_list (map sint (map FileSize (rights (outcomes c)))) < 2 ^ 63 \<longrightarrow>
           sint (sum_list (map FileSize (rights (outcomes c))))
             = sum_list (map sint (map FileSize (rights (outcomes c)))))"
proof -
  have r: "results s = map toResult (outcomes c)" using assms by (rule returned_outcomes)
  have a: "\<exists>ls. outputText (results s) =
            Inr (TextReport
              (Header
               # Counts (length (rights (outcomes c))) (length (lefts (outcomes c)))
               # TotalDuration (foldl (+) 0 (map DurationSeconds (rights (outcomes c))))
               # TotalSize (sum_list (map FileSize (rights (outcomes c))))
               # ls))"
    by (simp add: r outputText_toResult)
  have b: "length (rights (outcomes c)) + length (lefts (outcomes c)) = length (files c)"
    by (simp add: length_rights_lefts outcomes_def)
  have d: "rights (outcomes c) = [the (Info r). r \<leftarrow> results s, Error r = None]"
    unfolding r by (rule successes_toResult [symmetric])
  have e: "length (lefts (outcomes c)) = length [r \<leftarrow> results s. Error r \<noteq> None]"
    unfolding r by (rule failures_toResult [symmetric])
  have f: "(\<forall>info \<in> set (rights (outcomes c)). 0 \<le> sint (FileSize info))
            \<and> sum_list (map sint (map FileSize (rights (outcomes c)))) < 2 ^ 63 \<longrightarrow>
           sint (sum_list (map FileSize (rights (outcomes c))))
             = sum_list (map sint (map FileSize (rights (outcomes c))))"
  proof
    assume h: "(\<forall>info \<in> set (rights (outcomes c)). 0 \<le> sint (FileSize info))
            \<and> sum_list (map sint (map FileSize (rights (outcomes c)))) < 2 ^ 63"
    then have "\<forall>w \<in> set (map FileSize (rights (outcomes c))). 0 \<le> sint w" by simp
    moreover from h have "sum_list (map sint (map FileSize (rights (outcomes c)))) < 2 ^ 63" ..
    ultimately show "sint (sum_list (map FileSize (rights (outcomes c))))
             = sum_list (map sint (map FileSize (rights (outcomes c))))"
      by (rule sint_sum_list)
  qed
  from a b d e f show ?thesis by (intro conjI)
qed

theorem summary_statistics_witness:
  "processFiles demoConfig demoSchedule = Some demoFinal
   \<and> mainpc demoFinal = Returned
   \<and> outputText (results demoFinal) =
        Inr (TextReport
          [Header, Counts 2 1, TotalDuration 360, TotalSize 5760000,
           FileEntry (demoInfo ''/music/a.mp3'' ''a''),
           ErrorLine (FileNotFound ''no such file or directory''),
           FileEntry (demoInfo ''/music/c.wav'' ''c'')])
   \<and> rights (outcomes demoConfig)
        = [demoInfo ''/music/a.mp3'' ''a'', demoInfo ''/music/c.wav'' ''c'']
   \<and> sint (5760000 :: int64) = 2880000 + 2880000"
proof -
  from demo_run obtain s where p: "processFiles demoConfig demoSchedule = Some s"
    and m: "mainpc s = Returned" by blast
  from p have f: "demoFinal = s" by (simp add: demoFinal_def)
  have rs: "rights (outcomes demoConfig)
        = [demoInfo ''/music/a.mp3'' ''a'', demoInfo ''/music/c.wav'' ''c'']"
    by (simp add: demo_outcomes)
  have ls: "length (lefts (outcomes demoConfig)) = 1" by (simp add: demo_outcomes)
  have fs: "FileSize (demoInfo q t) = 2880000" "DurationSeconds (demoInfo q t) = 180" for q t
    by (simp_all add: demoInfo_def)
  note th = summary_statistics [OF p m]
  from th obtain ls' where o: "outputText (results s) =
            Inr (TextReport (Header # Counts 2 1 # TotalDuration 360 # TotalSize 5760000 # ls'))"
    by (auto simp: rs ls fs)
  have "map (case_sum ErrorLine FileEntry) (outcomes demoConfig)
      = [FileEntry (demoInfo ''/music/a.mp3'' ''a''),
         ErrorLine (FileNotFound ''no such file or directory''),
         FileEntry (demoInfo ''/music/c.wav'' ''c'')]"
    by (simp add: demo_outcomes)
  with o have "outputText (results s) = Inr (TextReport
          [Header, Counts 2 1, TotalDuration 360, TotalSize 5760000,
           FileEntry (demoInfo ''/music/a.mp3'' ''a''),
           ErrorLine (FileNotFound ''no such file or directory''),
           FileEntry (demoInfo ''/music/c.wav'' ''c'')])"
    unfolding returned_outcomes [OF p m] outputText_toResult by simp
  moreover from th have "sint (5760000 :: int64) = 2880000 + 2880000"
    by (simp add: rs fs)
  ultimately show ?thesis using p m rs unfolding f by (intro conjI)
qed

text \<open>The total size is an \<open>int64\<close>: over two files of \<open>2 ^ 62\<close> bytes, both probed with
  success, the report shows \<open>- 2 ^ 63\<close>, while the sizes add up to \<open>2 ^ 63\<close>.\<close>

lemma demo_large:
  "files demoLarge = [''/music/a.mp3'', ''/music/c.wav'']"
  "effectiveConcurrency demoLarge = 2"
  "analyzeFileWithFFProbe (lib demoLarge) (observe demoLarge i) p =
     Inr ((demoInfo p (TrimSuffix (Base p) (Ext (Base p))))
            \<lparr> FileSize := 4611686018427387904 \<rparr>)"
  by (simp_all add: demoLarge_def demoConfig_def effectiveConcurrency_def cpuLimit_def
      analyzeFileWithFFProbe_def demoLib_def demoOutput_def
      demoCover_def demoAudio_def demoInfo_def chooseBitRate_def withDefaults_def
      setDefault_def demo_lower)

theorem summary_statistics_counterexample:
  "map_option mainpc (processFiles demoLarge (sequentialSchedule demoLarge)) = Some Returned
   \<and> rights (outcomes demoLarge)
       = [(demoInfo ''/music/a.mp3'' ''a'') \<lparr> FileSize := 4611686018427387904 \<rparr>,
          (demoInfo ''/music/c.wav'' ''c'') \<lparr> FileSize := 4611686018427387904 \<rparr>]
   \<and> sum_list (map sint (map FileSize (rights (outcomes demoLarge)))) = 9223372036854775808
   \<and> map_option (\<lambda>s. outputText (results s))
         (processFiles demoLarge (sequentialSchedule demoLarge))
       = Some (Inr (TextReport
           [Header, Counts 2 0, TotalDuration 360, TotalSize (- 9223372036854775808),
            FileEntry ((demoInfo ''/music/a.mp3'' ''a'') \<lparr> FileSize := 4611686018427387904 \<rparr>),
            FileEntry ((demoInfo ''/music/c.wav'' ''c'') \<lparr> FileSize := 4611686018427387904 \<rparr>)]))
   \<and> sint (- 9223372036854775808 :: int64) = - 9223372036854775808"
proof -
  have "1 \<le> effectiveConcurrency demoLarge" by (simp add: demo_large)
  from sequential_returns [OF this]
  obtain s where p: "processFiles demoLarge (sequentialSchedule demoLarge) = Some s"
    and m: "mainpc s = Returned" by blast
  have r: "results s = map toResult (outcomes demoLarge)" using p m by (rule returned_outcomes)
  have "[0 ..< length (files demoLarge)] = [0, Suc 0]" by (simp add: demo_large upt_rec)
  then have os: "outcomes demoLarge
       = [Inr ((demoInfo ''/music/a.mp3'' ''a'') \<lparr> FileSize := 4611686018427387904 \<rparr>),
          Inr ((demoInfo ''/music/c.wav'' ''c'') \<lparr> FileSize := 4611686018427387904 \<rparr>)]"
    by (simp add: outcomes_def outcome_def demo_large demo_title)
  have rs: "rights (outcomes demoLarge)
       = [(demoInfo ''/music/a.mp3'' ''a'') \<lparr> FileSize := 4611686018427387904 \<rparr>,
          (demoInfo ''/music/c.wav'' ''c'') \<lparr> FileSize := 4611686018427387904 \<rparr>]"
    by (simp add: os)
  have sm: "sum_list (map sint (map FileSize (rights (outcomes demoLarge)))) = 9223372036854775808"
    by (simp add: rs)
  have du: "DurationSeconds (demoInfo q t) = 180" for q t by (simp add: demoInfo_def)
  have o: "outputText (results s) = Inr (TextReport
           [Header, Counts 2 0, TotalDuration 360, TotalSize (- 9223372036854775808),
            FileEntry ((demoInfo ''/music/a.mp3'' ''a'') \<lparr> FileSize := 4611686018427387904 \<rparr>),
            FileEntry ((demoInfo ''/music/c.wav'' ''c'') \<lparr> FileSize := 4611686018427387904 \<rparr>)])"
  proof -
    have w: "(4611686018427387904 + 4611686018427387904 :: int64) = - 9223372036854775808"
      by simp
    have "outputText (results s) = Inr (TextReport
           [Header, Counts (Suc (Suc 0)) 0, TotalDuration 360,
            TotalSize (- 9223372036854775808),
            FileEntry ((demoInfo ''/music/a.mp3'' ''a'') \<lparr> FileSize := 4611686018427387904 \<rparr>),
            FileEntry ((demoInfo ''/music/c.wav'' ''c'') \<lparr> FileSize := 4611686018427387904 \<rparr>)])"
      unfolding r outputText_toResult by (simp add: os du w)
    then show ?thesis by (simp only: numeral_2_eq_2)
  qed
  have sg: "sint (- 9223372036854775808 :: int64) = - 9223372036854775808" by simp
  from p m rs sm o sg show ?thesis by simp
qed




end
